theory Spec2Isabelle
  imports Main "HOL-Library.Word"
begin

unbundle bit_operations_syntax

chapter \<open>Address encoding and validation of suyhuai/addressutil\<close>

text \<open>
  A shallow embedding of the encoding and checksum engine of the Go package
  \<^verbatim>\<open>addressutil\<close> and of its sub-package \<^verbatim>\<open>util/bchutil\<close>. Go's \<^verbatim>\<open>byte\<close> is an
  8-bit word, \<^verbatim>\<open>uint64\<close> a 64-bit word and \<^verbatim>\<open>uint\<close> a 64-bit word too (the width
  on amd64 and arm64; all widths the package passes are at most 8, far from
  overflow). A Go \<^verbatim>\<open>string\<close> is a sequence of bytes and is modelled as a list of bytes;
  \<open>go_string\<close> reads a string literal as such a list. A call that does not return (it
  panics, or loops for ever) has the value \<open>None\<close>.
\<close>

section \<open>Data model\<close>

type_synonym byte = "8 word"
type_synonym uint64 = "64 word"
type_synonym uint = "64 word"
type_synonym gostring = "byte list"

definition go_string :: "string \<Rightarrow> gostring" where
  "go_string s = map of_char s"

text \<open>
  The sentinel errors of \<^verbatim>\<open>bchutil.go\<close> and \<^verbatim>\<open>address.go\<close>, compared by identity in
  the source; the errors made in place by \<^verbatim>\<open>errors.New\<close>, which carry their message;
  and the error \<^verbatim>\<open>fmt.Errorf("unsupport chain type %s", chain)\<close> of \<^verbatim>\<open>NewAddress\<close>.
\<close>

datatype error =
    ErrPublicKeyFormat
  | ErrChecksumMismatch
  | ErrUnknownAddressType
  | ErrAddressCollision
  | ErrInvalidFormat
  | ErrorsNew string
  | ErrUnsupportedChain gostring

section \<open>The polynomial checksum (\<^verbatim>\<open>polyMod\<close>, \<^verbatim>\<open>createChecksum\<close>, \<^verbatim>\<open>verifyChecksum\<close>)\<close>

text \<open>
  One iteration of the loop of \<^verbatim>\<open>polyMod\<close>. The package has two textually equal
  copies of the function, in \<^verbatim>\<open>bchutil.go\<close> and beside \<^verbatim>\<open>createChecksum\<close>; they differ
  only in writing \<^verbatim>\<open>byte\<close> or \<^verbatim>\<open>uint8\<close> for the type of \<^verbatim>\<open>c0\<close>.
\<close>

definition polyMod_step :: "uint64 \<Rightarrow> byte \<Rightarrow> uint64" where
  "polyMod_step c d =
     (let c0 = (ucast (drop_bit 35 c) :: byte);
          c1 = push_bit 5 (c AND 0x07ffffffff) XOR ucast d;
          c2 = (if c0 AND 0x01 > 0 then c1 XOR 0x98f2bc8e61 else c1);
          c3 = (if c0 AND 0x02 > 0 then c2 XOR 0x79b76d99e2 else c2);
          c4 = (if c0 AND 0x04 > 0 then c3 XOR 0xf33e5fb3c4 else c3);
          c5 = (if c0 AND 0x08 > 0 then c4 XOR 0xae2eabe2a8 else c4);
          c6 = (if c0 AND 0x10 > 0 then c5 XOR 0x1e4f43e470 else c5)
      in c6)"

fun polyMod_loop :: "uint64 \<Rightarrow> byte list \<Rightarrow> uint64" where
  "polyMod_loop c [] = c"
| "polyMod_loop c (d # v) = polyMod_loop (polyMod_step c d) v"

definition polyMod :: "byte list \<Rightarrow> uint64" where
  "polyMod v = polyMod_loop 1 v XOR 1"

text \<open>\<^verbatim>\<open>cat\<close> appends; its result is only read, so the sharing of backing arrays
  that Go's \<^verbatim>\<open>append\<close> allows is not observable.\<close>

definition cat :: "byte list \<Rightarrow> byte list \<Rightarrow> byte list" where
  "cat x y = x @ y"

definition expandPrefix :: "gostring \<Rightarrow> byte list" where
  "expandPrefix prefix = map (\<lambda>ch. ch AND 0x1f) prefix @ [0]"

definition createChecksum :: "gostring \<Rightarrow> byte list \<Rightarrow> byte list" where
  "createChecksum prefix payload =
     (let enc = cat (expandPrefix prefix) payload;
          enc = cat enc [0, 0, 0, 0, 0, 0, 0, 0];
          md = polyMod enc
      in map (\<lambda>i. ucast (drop_bit (5 * (7 - i)) md AND 0x1f)) [0..<8])"

definition verifyChecksum :: "gostring \<Rightarrow> byte list \<Rightarrow> bool" where
  "verifyChecksum prefix payload \<longleftrightarrow> polyMod (cat (expandPrefix prefix) payload) = 0"

subsection \<open>The description of \<^verbatim>\<open>polyMod\<close> in the specification\<close>

definition generators :: "uint64 list" where
  "generators = [0x98f2bc8e61, 0x79b76d99e2, 0xf33e5fb3c4, 0xae2eabe2a8, 0x1e4f43e470]"

text \<open>XOR generator \<open>k\<close> into \<open>c\<close> whenever bit \<open>k\<close> of \<open>c0\<close> is set.\<close>

definition xor_generators :: "uint64 \<Rightarrow> uint64 \<Rightarrow> uint64" where
  "xor_generators c0 c =
     fold (\<lambda>k acc. if bit c0 k then acc XOR generators ! k else acc) [0..<5] c"

text \<open>
  The step exactly as the specification words it: \<open>c0 = c >> 35\<close>, then
  \<open>c = ((c << 5) | d) & 0x07FFFFFFFF\<close>, then the generators.
\<close>

definition polyMod_spec_step :: "uint64 \<Rightarrow> byte \<Rightarrow> uint64" where
  "polyMod_spec_step c d =
     (let c0 = drop_bit 35 c in
        xor_generators c0 ((push_bit 5 c OR ucast d) AND 0x07FFFFFFFF))"

definition polyMod_spec :: "byte list \<Rightarrow> uint64" where
  "polyMod_spec v = fold (\<lambda>d c. polyMod_spec_step c d) v 1 XOR 1"

text \<open>
  The same description with the mask applied before the shift:
  \<open>c = ((c & 0x07FFFFFFFF) << 5) | d\<close>.
\<close>

definition polyMod_amended_step :: "uint64 \<Rightarrow> byte \<Rightarrow> uint64" where
  "polyMod_amended_step c d =
     (let c0 = drop_bit 35 c in
        xor_generators c0 (push_bit 5 (c AND 0x07FFFFFFFF) OR ucast d))"

definition polyMod_amended :: "byte list \<Rightarrow> uint64" where
  "polyMod_amended v = fold (\<lambda>d c. polyMod_amended_step c d) v 1 XOR 1"

text \<open>Auxiliary notions for the proofs: a list of 5-bit groups read as one number, and
  the \<open>k\<close> lowest 5-bit groups of a number, most significant first.\<close>

definition pack5 :: "byte list \<Rightarrow> uint64" where
  "pack5 ds = foldl (\<lambda>a d. push_bit 5 a XOR ucast d) 0 ds"

definition groups5 :: "nat \<Rightarrow> uint64 \<Rightarrow> byte list" where
  "groups5 k m = map (\<lambda>i. ucast (drop_bit (5 * (k - 1 - i)) m AND 0x1f)) [0..<k]"

section \<open>Bit regrouping (\<^verbatim>\<open>convertBits\<close>)\<close>

text \<open>
  The inner loop \<^verbatim>\<open>for bits >= tobits { bits -= tobits; ret = append(ret, (acc>>bits)&maxv) }\<close>.
  It does not end when \<^verbatim>\<open>tobits\<close> is 0, so it is a partial function: \<open>None\<close> stands for
  a run that never returns.
\<close>

partial_function (option) convertBits_inner ::
  "uint \<Rightarrow> uint \<Rightarrow> uint \<Rightarrow> uint \<Rightarrow> uint list \<Rightarrow> (uint \<times> uint list) option" where
  "convertBits_inner tobits maxv acc bits ret =
     (if bits \<ge> tobits
      then convertBits_inner tobits maxv acc (bits - tobits)
             (ret @ [drop_bit (unat (bits - tobits)) acc AND maxv])
      else Some (bits, ret))"

declare convertBits_inner.simps [code]

text \<open>The outer loop over the input values, threading \<^verbatim>\<open>acc\<close>, \<^verbatim>\<open>bits\<close> and \<^verbatim>\<open>ret\<close>.\<close>

fun convertBits_loop ::
  "uint \<Rightarrow> uint \<Rightarrow> uint \<Rightarrow> uint \<Rightarrow> uint list \<Rightarrow> uint \<Rightarrow> uint \<Rightarrow> uint list
     \<Rightarrow> (uint \<times> uint \<times> uint list) option" where
  "convertBits_loop fromBits tobits maxv maxAcc [] acc bits ret = Some (acc, bits, ret)"
| "convertBits_loop fromBits tobits maxv maxAcc (value # rest) acc bits ret =
     (let acc' = (push_bit (unat fromBits) acc OR value) AND maxAcc;
          bits' = bits + fromBits
      in case convertBits_inner tobits maxv acc' bits' ret of
           None \<Rightarrow> None
         | Some (bits'', ret') \<Rightarrow>
             convertBits_loop fromBits tobits maxv maxAcc rest acc' bits'' ret')"

text \<open>
  \<^verbatim>\<open>convertBits\<close> itself. The two copies in the package are textually equal. The error
  return is \<^verbatim>\<open>errors.New("encoding padding error")\<close>.
\<close>

definition convertBits :: "byte list \<Rightarrow> uint \<Rightarrow> uint \<Rightarrow> bool \<Rightarrow> (error + byte list) option" where
  "convertBits data fromBits tobits pad =
     (let uintArr = map ucast data;
          maxv = push_bit (unat tobits) 1 - 1;
          maxAcc = push_bit (unat (fromBits + tobits - 1)) 1 - 1
      in case convertBits_loop fromBits tobits maxv maxAcc uintArr 0 0 [] of
           None \<Rightarrow> None
         | Some (acc, bits, ret) \<Rightarrow>
             if pad then
               Some (Inr (map ucast
                 (if bits > 0 then ret @ [push_bit (unat (tobits - bits)) acc AND maxv] else ret)))
             else if bits \<ge> fromBits \<or> push_bit (unat (tobits - bits)) acc AND maxv \<noteq> 0 then
               Some (Inl (ErrorsNew ''encoding padding error''))
             else Some (Inr (map ucast ret)))"

text \<open>
  Notions the statements about \<^verbatim>\<open>convertBits\<close> use. The leftover bit count after all
  full groups are emitted; the final accumulator, which does not depend on the emitted
  groups; and the leftover bits shifted left to the width \<^verbatim>\<open>tobits\<close>.
\<close>

definition leftover_count :: "byte list \<Rightarrow> uint \<Rightarrow> uint \<Rightarrow> nat" where
  "leftover_count data fromBits tobits = (unat fromBits * length data) mod unat tobits"

definition accumulate :: "uint \<Rightarrow> uint \<Rightarrow> uint list \<Rightarrow> uint" where
  "accumulate fromBits maxAcc vs =
     foldl (\<lambda>acc v. (push_bit (unat fromBits) acc OR v) AND maxAcc) 0 vs"

definition leftover_shifted :: "byte list \<Rightarrow> uint \<Rightarrow> uint \<Rightarrow> uint" where
  "leftover_shifted data fromBits tobits =
     push_bit (unat tobits - leftover_count data fromBits tobits)
       (accumulate fromBits (mask (unat fromBits + unat tobits - 1)) (map ucast data))
     AND mask (unat tobits)"

text \<open>
  For the proofs: the \<open>k\<close> lowest digits of a number in base \<open>B\<close>, most significant
  first, and the number a list of \<open>F\<close>-bit values denotes.
\<close>

fun digits :: "nat \<Rightarrow> nat \<Rightarrow> nat \<Rightarrow> nat list" where
  "digits B 0 x = []"
| "digits B (Suc k) x = digits B k (x div B) @ [x mod B]"

definition number :: "nat \<Rightarrow> nat list \<Rightarrow> nat" where
  "number F vs = foldl (\<lambda>n v. n * 2 ^ F + v) 0 vs"

section \<open>The EOS account-name check (\<^verbatim>\<open>eosutil.CheckEOSAccount\<close>)\<close>

text \<open>
  The conversion \<^verbatim>\<open>[]rune(s)\<close> decodes UTF-8 as the Go runtime does: a byte below 0x80 is
  its own rune; otherwise \<^verbatim>\<open>decoderune\<close> reads a sequence of two to four bytes, and
  gives the rune 0xFFFD and a width of one byte for whatever is not well-formed. All
  runes are below \<open>2 ^ 21\<close>, so the unsigned comparisons of words agree with Go's
  comparisons of \<^verbatim>\<open>int32\<close>.
\<close>

type_synonym rune = "32 word"

definition runeError :: rune where
  "runeError = 0xFFFD"

text \<open>\<^verbatim>\<open>decoderune\<close> on the bytes from the current position on, which are not empty; it
  returns the rune and the number of bytes it takes.\<close>

definition decoderune :: "byte list \<Rightarrow> rune \<times> nat" where
  "decoderune s =
     (let s0 = s ! 0 in
      if 0xC0 \<le> s0 \<and> s0 < 0xE0 then
        (if length s > 1 \<and> (0x80 \<le> s ! 1 \<and> s ! 1 \<le> 0xBF) then
           (let r = push_bit 6 (ucast (s0 AND 0x1F)) OR ucast (s ! 1 AND 0x3F) in
            if 0x7F < r then (r, 2) else (runeError, 1))
         else (runeError, 1))
      else if 0xE0 \<le> s0 \<and> s0 < 0xF0 then
        (if length s > 2 \<and> (0x80 \<le> s ! 1 \<and> s ! 1 \<le> 0xBF) \<and> (0x80 \<le> s ! 2 \<and> s ! 2 \<le> 0xBF) then
           (let r = push_bit 12 (ucast (s0 AND 0x0F)) OR push_bit 6 (ucast (s ! 1 AND 0x3F))
                      OR ucast (s ! 2 AND 0x3F) in
            if 0x7FF < r \<and> \<not> (0xD800 \<le> r \<and> r \<le> 0xDFFF) then (r, 3) else (runeError, 1))
         else (runeError, 1))
      else if 0xF0 \<le> s0 \<and> s0 < 0xF8 then
        (if length s > 3 \<and> (0x80 \<le> s ! 1 \<and> s ! 1 \<le> 0xBF) \<and> (0x80 \<le> s ! 2 \<and> s ! 2 \<le> 0xBF)
              \<and> (0x80 \<le> s ! 3 \<and> s ! 3 \<le> 0xBF) then
           (let r = push_bit 18 (ucast (s0 AND 0x07)) OR push_bit 12 (ucast (s ! 1 AND 0x3F))
                      OR push_bit 6 (ucast (s ! 2 AND 0x3F)) OR ucast (s ! 3 AND 0x3F) in
            if 0xFFFF < r \<and> r \<le> 0x10FFFF then (r, 4) else (runeError, 1))
         else (runeError, 1))
      else (runeError, 1))"

fun runes :: "byte list \<Rightarrow> rune list" where
  "runes [] = []"
| "runes (c # rest) =
     (if c < 0x80 then ucast c # runes rest
      else (case decoderune (c # rest) of (r, n) \<Rightarrow> r # runes (drop (n - 1) rest)))"

text \<open>\<^verbatim>\<open>strings.ContainsRune(s, r)\<close>: whether the code point \<open>r\<close> is within \<open>s\<close>.\<close>

definition ContainsRune :: "gostring \<Rightarrow> rune \<Rightarrow> bool" where
  "ContainsRune s r \<longleftrightarrow> r \<in> set (runes s)"

definition AccountChars :: gostring where
  "AccountChars = go_string ''.12345abcdefghijklmnopqrstuvwxyz''"

definition CheckEOSAccount :: "gostring \<Rightarrow> bool" where
  "CheckEOSAccount s =
     (if length s > 12 then False
      else list_all (\<lambda>c. ContainsRune AccountChars c) (runes s))"

section \<open>External collaborators\<close>

text \<open>
  The hash functions, the elliptic-curve key parser and the decoders of the other
  chains are not part of the sources at hand. They are parameters of the model, held in
  one record. A digest is a word of its fixed width, so that its length as a byte
  sequence is part of its type. \<^verbatim>\<open>ParsePubKey\<close> stands for both \<^verbatim>\<open>ecc.ParsePubKey\<close> and
  \<^verbatim>\<open>bchec.ParsePubKey\<close> on the curve \<^verbatim>\<open>S256\<close>. An address object that \<^verbatim>\<open>btcutil\<close> or \<^verbatim>\<open>ltcutil\<close>
  decodes is seen through its method \<^verbatim>\<open>IsForNet\<close> only, and the network parameters of
  those packages through the flag that selects them (true for the main net); a
  mixed-case address of \<^verbatim>\<open>ethutil\<close> is seen through \<^verbatim>\<open>Original()\<close> and \<^verbatim>\<open>Address().Hex()\<close>.
\<close>

datatype base58_error = Base58ErrChecksum | Base58ErrInvalidFormat

record ('pk, 'apk) externals =
  sha256_Sum256 :: "byte list \<Rightarrow> 256 word"
  ripemd160_Sum :: "byte list \<Rightarrow> 160 word"
  keccak256_Sum :: "byte list \<Rightarrow> 256 word"
  hash160_Hash160 :: "byte list \<Rightarrow> 160 word"
  base58_Decode :: "gostring \<Rightarrow> byte list"
  base58_CheckDecode :: "gostring \<Rightarrow> base58_error + (byte list \<times> byte)"
  hex_DecodeString :: "gostring \<Rightarrow> error + byte list"
  ParsePubKey :: "byte list \<Rightarrow> error + 'pk"
  SerializeCompressed :: "'pk \<Rightarrow> byte list"
  btcutil_NewAddressPubKey :: "byte list \<Rightarrow> error + 'apk"
  ScriptAddress :: "'apk \<Rightarrow> byte list"
  btcutil_DecodeAddress :: "gostring \<Rightarrow> bool \<Rightarrow> error + (bool \<Rightarrow> bool)"
  ltcutil_DecodeAddress :: "gostring \<Rightarrow> bool \<Rightarrow> error + (bool \<Rightarrow> bool)"
  ethutil_NewMixedcaseAddressFromString :: "gostring \<Rightarrow> error + (gostring \<times> gostring)"
  strings_ToLower :: "gostring \<Rightarrow> gostring"

text \<open>The bytes of a digest, most significant first.\<close>

definition digest_bytes :: "'a::len word \<Rightarrow> byte list" where
  "digest_bytes w = map (\<lambda>i. ucast (drop_bit (8 * (LENGTH('a) div 8 - 1 - i)) w)) [0..<LENGTH('a) div 8]"

text \<open>\<^verbatim>\<open>hex.EncodeToString\<close> of the Go standard library.\<close>

definition hextable :: gostring where
  "hextable = go_string ''0123456789abcdef''"

definition hex_EncodeToString :: "byte list \<Rightarrow> gostring" where
  "hex_EncodeToString src =
     concat (map (\<lambda>v. [hextable ! unat (drop_bit 4 v), hextable ! unat (v AND 0x0f)]) src)"

subsection \<open>Base58 encoding\<close>

text \<open>
  Modelled from the spec: the package \<^verbatim>\<open>base58\<close> of the repository is not among the sources
  at hand. Its encoder follows the specification's Base58Codec: the byte sequence is read
  as a big-endian unsigned integer, which is divided by 58 repeatedly; the remainders
  are mapped through the 58-character alphabet (digits and letters without \<^verbatim>\<open>0\<close>, \<^verbatim>\<open>O\<close>, \<^verbatim>\<open>I\<close>
  and \<^verbatim>\<open>l\<close>), and one leading character of the alphabet is put in front for every
  leading zero byte of the input.
\<close>

definition b58_alphabet :: gostring where
  "b58_alphabet = go_string ''123456789ABCDEFGHJKLMNPQRSTUVWXYZabcdefghijkmnopqrstuvwxyz''"

definition nat_of_bytes :: "byte list \<Rightarrow> nat" where
  "nat_of_bytes bs = foldl (\<lambda>n b. n * 256 + unat b) 0 bs"

function b58_digits :: "nat \<Rightarrow> gostring" where
  "b58_digits n = (if n = 0 then [] else b58_digits (n div 58) @ [b58_alphabet ! (n mod 58)])"
  by pat_completeness auto
termination
  by (relation "measure id") auto

definition base58_Encode :: "byte list \<Rightarrow> gostring" where
  "base58_Encode bs =
     replicate (length (takeWhile (\<lambda>b. b = 0) bs)) (b58_alphabet ! 0) @ b58_digits (nat_of_bytes bs)"

text \<open>
  Modelled from the spec: the specification's ChecksumCodec, for \<^verbatim>\<open>base58.CheckEncode\<close>. The
  checksum is the first 4 bytes of SHA-256 of SHA-256 of the body, and the encoding is
  Base58 of the version byte, the payload and the checksum of both.
\<close>

definition base58_checksum :: "('pk, 'apk) externals \<Rightarrow> byte list \<Rightarrow> byte list" where
  "base58_checksum ext body =
     take 4 (digest_bytes (sha256_Sum256 ext (digest_bytes (sha256_Sum256 ext body))))"

definition base58_CheckEncode :: "('pk, 'apk) externals \<Rightarrow> byte list \<Rightarrow> byte \<Rightarrow> gostring" where
  "base58_CheckEncode ext payload version =
     base58_Encode (version # payload @ base58_checksum ext (version # payload))"

section \<open>Decoding Bitcoin Cash addresses (\<^verbatim>\<open>bchutil\<close>)\<close>

text \<open>
  The network parameters are compared by the identity of their pointers in the source
  (they are keys of the map \<^verbatim>\<open>Prefixes\<close>): the four networks that \<^verbatim>\<open>chaincfg\<close> declares, and any
  other \<^verbatim>\<open>util.Params\<close>, of which the model keeps the two legacy address identifiers.
\<close>

datatype Params = MainNetParams | TestNet3Params | RegressionNetParams | SimNetParams
  | OtherParams byte byte

fun LegacyPubKeyHashAddrID :: "Params \<Rightarrow> byte" where
  "LegacyPubKeyHashAddrID MainNetParams = 0x00"
| "LegacyPubKeyHashAddrID RegressionNetParams = 0x6f"
| "LegacyPubKeyHashAddrID TestNet3Params = 0x6f"
| "LegacyPubKeyHashAddrID SimNetParams = 0x3f"
| "LegacyPubKeyHashAddrID (OtherParams p s) = p"

fun LegacyScriptHashAddrID :: "Params \<Rightarrow> byte" where
  "LegacyScriptHashAddrID MainNetParams = 0x05"
| "LegacyScriptHashAddrID RegressionNetParams = 0xc4"
| "LegacyScriptHashAddrID TestNet3Params = 0xc4"
| "LegacyScriptHashAddrID SimNetParams = 0x7b"
| "LegacyScriptHashAddrID (OtherParams p s) = s"

text \<open>The networks that \<^verbatim>\<open>init\<close> of \<^verbatim>\<open>chaincfg\<close> registers, whose identifiers fill the maps
  behind \<^verbatim>\<open>IsPubKeyHashAddrID\<close> and \<^verbatim>\<open>IsScriptHashAddrID\<close>.\<close>

definition registered :: "Params list" where
  "registered = [MainNetParams, TestNet3Params, RegressionNetParams, SimNetParams]"

definition IsPubKeyHashAddrID :: "byte \<Rightarrow> bool" where
  "IsPubKeyHashAddrID id' \<longleftrightarrow> id' \<in> set (map LegacyPubKeyHashAddrID registered)"

definition IsScriptHashAddrID :: "byte \<Rightarrow> bool" where
  "IsScriptHashAddrID id' \<longleftrightarrow> id' \<in> set (map LegacyScriptHashAddrID registered)"

fun Prefixes :: "Params \<Rightarrow> gostring option" where
  "Prefixes MainNetParams = Some (go_string ''bitcoincash'')"
| "Prefixes TestNet3Params = Some (go_string ''bchtest'')"
| "Prefixes RegressionNetParams = Some (go_string ''bchreg'')"
| "Prefixes SimNetParams = Some (go_string ''bchsim'')"
| "Prefixes (OtherParams p s) = None"

type_synonym AddressType = int

definition AddrTypePayToPubKeyHash :: AddressType where "AddrTypePayToPubKeyHash = 0"
definition AddrTypePayToScriptHash :: AddressType where "AddrTypePayToScriptHash = 1"

datatype PubKeyFormat = PKFUncompressed | PKFCompressed | PKFHybrid

text \<open>The four implementations of the interface \<^verbatim>\<open>Address\<close> of \<^verbatim>\<open>bchutil\<close>.\<close>

datatype 'pk bch_Address =
    AddressPubKeyHash "byte list" gostring
  | AddressPubKey PubKeyFormat 'pk byte
  | LegacyAddressPubKeyHash "byte list" byte
  | LegacyAddressScriptHash "byte list" byte

fun IsForNet :: "'pk bch_Address \<Rightarrow> Params \<Rightarrow> bool" where
  "IsForNet (AddressPubKeyHash hash prefix) net =
     (case Prefixes net of None \<Rightarrow> False | Some checkPre \<Rightarrow> prefix = checkPre)"
| "IsForNet (AddressPubKey pubKeyFormat pubKey pubKeyHashID) net =
     (pubKeyHashID = LegacyPubKeyHashAddrID net)"
| "IsForNet (LegacyAddressPubKeyHash hash netID) net = (netID = LegacyPubKeyHashAddrID net)"
| "IsForNet (LegacyAddressScriptHash hash netID) net = (netID = LegacyScriptHashAddrID net)"

definition newAddressPubKeyHash :: "byte list \<Rightarrow> Params \<Rightarrow> error + 'pk bch_Address" where
  "newAddressPubKeyHash pkHash net =
     (if length pkHash \<noteq> 20 then Inl (ErrorsNew ''pkHash must be 20 bytes'')
      else case Prefixes net of
             None \<Rightarrow> Inl (ErrorsNew ''unknown network parameters'')
           | Some prefix \<Rightarrow> Inr (AddressPubKeyHash pkHash prefix))"

definition newLegacyAddressPubKeyHash :: "byte list \<Rightarrow> byte \<Rightarrow> error + 'pk bch_Address" where
  "newLegacyAddressPubKeyHash pkHash netID =
     (if length pkHash \<noteq> 20 then Inl (ErrorsNew ''pkHash must be 20 bytes'')
      else Inr (LegacyAddressPubKeyHash pkHash netID))"

definition newLegacyAddressScriptHashFromHash :: "byte list \<Rightarrow> byte \<Rightarrow> error + 'pk bch_Address" where
  "newLegacyAddressScriptHashFromHash scriptHash netID =
     (if length scriptHash \<noteq> 20 then Inl (ErrorsNew ''scriptHash must be 20 bytes'')
      else Inr (LegacyAddressScriptHash scriptHash netID))"

text \<open>\<^verbatim>\<open>NewAddressPubKey\<close> reads \<^verbatim>\<open>serializedPubKey[0]\<close> once the key has parsed; on an empty
  key that read panics.\<close>

definition NewAddressPubKey ::
  "('pk, 'apk) externals \<Rightarrow> byte list \<Rightarrow> Params \<Rightarrow> (error + 'pk bch_Address) option" where
  "NewAddressPubKey ext serializedPubKey net =
     (case ParsePubKey ext serializedPubKey of
        Inl err \<Rightarrow> Some (Inl err)
      | Inr pubKey \<Rightarrow>
          if serializedPubKey = [] then None
          else
            let b = serializedPubKey ! 0;
                pkFormat = (if b = 0x02 \<or> b = 0x03 then PKFCompressed
                            else if b = 0x06 \<or> b = 0x07 then PKFHybrid
                            else PKFUncompressed)
            in Some (Inr (AddressPubKey pkFormat pubKey (LegacyPubKeyHashAddrID net))))"

definition lowerCase :: "byte \<Rightarrow> byte" where
  "lowerCase c = c OR 0x20"

definition CharsetRev :: "int list" where
  "CharsetRev = [
    -1, -1, -1, -1, -1, -1, -1, -1, -1, -1, -1, -1, -1, -1, -1, -1, -1, -1, -1,
    -1, -1, -1, -1, -1, -1, -1, -1, -1, -1, -1, -1, -1, -1, -1, -1, -1, -1, -1,
    -1, -1, -1, -1, -1, -1, -1, -1, -1, -1, 15, -1, 10, 17, 21, 20, 26, 30, 7,
    5, -1, -1, -1, -1, -1, -1, -1, 29, -1, 24, 13, 25, 9, 8, 23, -1, 18, 22,
    31, 27, 19, -1, 1, 0, 3, 16, 11, 28, 12, 14, 6, 4, 2, -1, -1, -1, -1,
    -1, -1, 29, -1, 24, 13, 25, 9, 8, 23, -1, 18, 22, 31, 27, 19, -1, 1, 0,
    3, 16, 11, 28, 12, 14, 6, 4, 2, -1, -1, -1, -1, -1]"

text \<open>The first loop of \<^verbatim>\<open>DecodeCashAddress\<close>, over the characters of the string, from
  index \<open>i\<close> on; it returns \<^verbatim>\<open>lower\<close>, \<^verbatim>\<open>upper\<close> and \<^verbatim>\<open>prefixSize\<close>.\<close>

fun DecodeCashAddress_scan ::
  "gostring \<Rightarrow> nat \<Rightarrow> bool \<Rightarrow> bool \<Rightarrow> nat \<Rightarrow> error + (bool \<times> bool \<times> nat)" where
  "DecodeCashAddress_scan [] i lower upper prefixSize = Inr (lower, upper, prefixSize)"
| "DecodeCashAddress_scan (c # rest) i lower upper prefixSize =
     (if 0x61 \<le> c \<and> c \<le> 0x7A then DecodeCashAddress_scan rest (Suc i) True upper prefixSize
      else if 0x41 \<le> c \<and> c \<le> 0x5A then DecodeCashAddress_scan rest (Suc i) lower True prefixSize
      else if 0x30 \<le> c \<and> c \<le> 0x39 then
        (if prefixSize = 0
         then Inl (ErrorsNew ''addresses cannot have numbers in the prefix'')
         else DecodeCashAddress_scan rest (Suc i) lower upper prefixSize)
      else if c = 0x3A then
        (if i = 0 \<or> prefixSize \<noteq> 0
         then Inl (ErrorsNew ''the separator must not be the first character'')
         else DecodeCashAddress_scan rest (Suc i) lower upper i)
      else Inl (ErrorsNew ''unexpected character''))"

text \<open>The loop that maps the characters after the separator through \<^verbatim>\<open>CharsetRev\<close>.\<close>

fun DecodeCashAddress_values :: "gostring \<Rightarrow> error + byte list" where
  "DecodeCashAddress_values [] = Inr []"
| "DecodeCashAddress_values (c # rest) =
     (if c > 127 \<or> CharsetRev ! unat c = -1 then Inl (ErrorsNew ''invalid character'')
      else case DecodeCashAddress_values rest of
             Inl err \<Rightarrow> Inl err
           | Inr values \<Rightarrow> Inr (word_of_int (CharsetRev ! unat c) # values))"

text \<open>\<^verbatim>\<open>DecodeCashAddress\<close>. Its last line slices \<^verbatim>\<open>values[:len(values)-8]\<close>, which panics
  when fewer than 8 values verify.\<close>

definition DecodeCashAddress :: "gostring \<Rightarrow> (error + gostring \<times> byte list) option" where
  "DecodeCashAddress str =
     (case DecodeCashAddress_scan str 0 False False 0 of
        Inl err \<Rightarrow> Some (Inl err)
      | Inr (lower, upper, prefixSize) \<Rightarrow>
          if prefixSize = 0 then Some (Inl (ErrorsNew ''address must have a prefix''))
          else if upper \<and> lower then
            Some (Inl (ErrorsNew ''addresses cannot use both upper and lower case characters''))
          else
            let prefix = map lowerCase (take prefixSize str);
                valuesSize = length str - 1 - prefixSize
            in case DecodeCashAddress_values (take valuesSize (drop (prefixSize + 1) str)) of
                 Inl err \<Rightarrow> Some (Inl err)
               | Inr values \<Rightarrow>
                   if \<not> verifyChecksum prefix values then Some (Inl ErrChecksumMismatch)
                   else if length values < 8 then None
                   else Some (Inr (prefix, take (length values - 8) values)))"

definition checkDecodeCashAddress ::
  "gostring \<Rightarrow> (error + byte list \<times> gostring \<times> AddressType) option" where
  "checkDecodeCashAddress input =
     (case DecodeCashAddress input of
        None \<Rightarrow> None
      | Some (Inl err) \<Rightarrow> Some (Inl err)
      | Some (Inr (prefix, data)) \<Rightarrow>
          (case convertBits data 5 8 False of
             None \<Rightarrow> None
           | Some (Inl err) \<Rightarrow> Some (Inl err)
           | Some (Inr data) \<Rightarrow>
               if length data \<noteq> 21 then Some (Inl (ErrorsNew ''incorrect data length''))
               else
                 let t = (if data ! 0 = 0x00 then AddrTypePayToPubKeyHash
                          else if data ! 0 = 0x08 then AddrTypePayToScriptHash
                          else 0)
                 in Some (Inr (take 20 (drop 1 data), prefix, t))))"

text \<open>
  \<^verbatim>\<open>DecodeAddress\<close>, in two parts. \<open>DecodeAddress_legacy\<close> is the rest of its body after
  the attempt at the prefix:base32 form: the serialized public key in hexadecimal, then
  Base58Check.
\<close>

definition DecodeAddress_legacy ::
  "('pk, 'apk) externals \<Rightarrow> gostring \<Rightarrow> Params \<Rightarrow> (error + 'pk bch_Address) option" where
  "DecodeAddress_legacy ext addr defaultNet =
     (if length addr = 130 \<or> length addr = 66 then
        (case hex_DecodeString ext addr of
           Inl err \<Rightarrow> Some (Inl err)
         | Inr serializedPubKey \<Rightarrow> NewAddressPubKey ext serializedPubKey defaultNet)
      else
        (case base58_CheckDecode ext addr of
           Inl err \<Rightarrow>
             if err = Base58ErrChecksum then Some (Inl ErrChecksumMismatch)
             else Some (Inl (ErrorsNew ''decoded address is of unknown format''))
         | Inr (decoded, netID) \<Rightarrow>
             if length decoded = 20 then
               (let isP2PKH = IsPubKeyHashAddrID netID;
                    isP2SH = IsScriptHashAddrID netID
                in if isP2PKH \<and> isP2SH then Some (Inl ErrAddressCollision)
                   else if isP2PKH then Some (newLegacyAddressPubKeyHash decoded netID)
                   else if isP2SH then Some (newLegacyAddressScriptHashFromHash decoded netID)
                   else Some (Inl ErrUnknownAddressType))
             else Some (Inl (ErrorsNew ''decoded address is of unknown size''))))"

text \<open>The string that \<^verbatim>\<open>DecodeAddress\<close> hands to the prefix:base32 decoder: the address,
  with the prefix of the network and a colon put in front unless it starts with them.\<close>

definition addrWithPrefix :: "gostring \<Rightarrow> gostring \<Rightarrow> gostring" where
  "addrWithPrefix pre addr =
     (if take (length pre + 1) addr \<noteq> pre @ go_string '':''
      then pre @ go_string '':'' @ addr else addr)"

definition DecodeAddress ::
  "('pk, 'apk) externals \<Rightarrow> gostring \<Rightarrow> Params \<Rightarrow> (error + 'pk bch_Address) option" where
  "DecodeAddress ext addr defaultNet =
     (case Prefixes defaultNet of
        None \<Rightarrow> Some (Inl (ErrorsNew ''unknown network parameters''))
      | Some pre \<Rightarrow>
          if length addr < length pre + 2 then Some (Inl (ErrorsNew ''invalid length address''))
          else
            case checkDecodeCashAddress (addrWithPrefix pre addr) of
                 None \<Rightarrow> None
               | Some (Inr (decoded, prefix, typ)) \<Rightarrow>
                   if length decoded = 20 then
                     (if typ = AddrTypePayToPubKeyHash
                      then Some (newAddressPubKeyHash decoded defaultNet)
                      else Some (Inl ErrUnknownAddressType))
                   else Some (Inl (ErrorsNew ''decoded address is of unknown size''))
               | Some (Inl err) \<Rightarrow>
                   if err = ErrChecksumMismatch then Some (Inl ErrChecksumMismatch)
                   else DecodeAddress_legacy ext addr defaultNet)"

text \<open>\<^verbatim>\<open>CheckBCHAddress\<close> of the package \<^verbatim>\<open>addressutil\<close>.\<close>

definition CheckBCHAddress :: "('pk, 'apk) externals \<Rightarrow> gostring \<Rightarrow> bool \<Rightarrow> bool option" where
  "CheckBCHAddress ext address main =
     (let netParam = (if main then MainNetParams else TestNet3Params)
      in case DecodeAddress ext address netParam of
           None \<Rightarrow> None
         | Some (Inl err) \<Rightarrow> Some False
         | Some (Inr addr) \<Rightarrow> Some (IsForNet addr netParam))"

section \<open>Address objects, their constructors and their textual forms\<close>

text \<open>
  An address object is a record of the fields of its struct. A method that stores the
  textual form in the object returns the object it leaves behind together with the
  string.
\<close>

subsection \<open>BTC (\<^verbatim>\<open>bitcoin.go\<close>)\<close>

definition BTC_MAIN_NET :: byte where "BTC_MAIN_NET = 0x00"
definition BTC_TEST_NET :: byte where "BTC_TEST_NET = 0x6f"

record BTCAddress =
  btc_net :: byte
  btc_addr :: gostring
  btc_pubKey :: "byte list"

definition NewBTCAddress :: "byte list \<Rightarrow> bool \<Rightarrow> error + BTCAddress" where
  "NewBTCAddress pubKey main =
     (if length pubKey \<noteq> 65 \<or> pubKey ! 0 \<noteq> 0x04 then Inl ErrPublicKeyFormat
      else Inr \<lparr>btc_net = (if main then BTC_MAIN_NET else BTC_TEST_NET),
                btc_addr = [], btc_pubKey = pubKey\<rparr>)"

definition BTCAddress_String ::
  "('pk, 'apk) externals \<Rightarrow> BTCAddress \<Rightarrow> gostring \<times> BTCAddress" where
  "BTCAddress_String ext a =
     (if btc_addr a \<noteq> [] then (btc_addr a, a)
      else
        let h1 = digest_bytes (sha256_Sum256 ext (btc_pubKey a));
            h2 = digest_bytes (ripemd160_Sum ext h1);
            s = base58_CheckEncode ext h2 (btc_net a)
        in (s, a\<lparr>btc_addr := s\<rparr>))"

definition CheckBTCAddress :: "('pk, 'apk) externals \<Rightarrow> gostring \<Rightarrow> bool \<Rightarrow> bool" where
  "CheckBTCAddress ext address main =
     (case btcutil_DecodeAddress ext address main of
        Inl err \<Rightarrow> False
      | Inr addr \<Rightarrow> addr main)"

subsection \<open>BCH\<close>

definition BCH_MAIN_NET :: byte where "BCH_MAIN_NET = 0x00"
definition BCH_TEST_NET :: byte where "BCH_TEST_NET = 0x6f"
definition BCH_MAIN_PREFIX :: gostring where "BCH_MAIN_PREFIX = go_string ''bitcoincash''"
definition BCH_TEST_PREFIX :: gostring where "BCH_TEST_PREFIX = go_string ''bchtest''"

record BCHAddress =
  bch_prefix :: gostring
  bch_net :: byte
  bch_addr :: gostring
  bch_pubKey :: "byte list"

definition NewBCHAddress :: "byte list \<Rightarrow> bool \<Rightarrow> error + BCHAddress" where
  "NewBCHAddress pubKey main =
     (if length pubKey \<noteq> 65 \<or> pubKey ! 0 \<noteq> 0x04 then Inl ErrPublicKeyFormat
      else Inr \<lparr>bch_prefix = (if main then BCH_MAIN_PREFIX else BCH_TEST_PREFIX),
                bch_net = (if main then BCH_MAIN_NET else BCH_TEST_NET),
                bch_addr = [], bch_pubKey = pubKey\<rparr>)"

text \<open>\<^verbatim>\<open>BCHAddress.String\<close> builds a \<^verbatim>\<open>BTCAddress\<close> of the same net byte and key, and takes its
  textual form.\<close>

definition BCHAddress_String ::
  "('pk, 'apk) externals \<Rightarrow> BCHAddress \<Rightarrow> gostring \<times> BCHAddress" where
  "BCHAddress_String ext a =
     (if bch_addr a \<noteq> [] then (bch_addr a, a)
      else
        let ba = \<lparr>btc_net = bch_net a, btc_addr = [], btc_pubKey = bch_pubKey a\<rparr>;
            s = fst (BTCAddress_String ext ba)
        in (s, a\<lparr>bch_addr := s\<rparr>))"

subsection \<open>LTC\<close>

definition LTC_MAIN_NET :: byte where "LTC_MAIN_NET = 0x30"
definition LTC_TEST_NET :: byte where "LTC_TEST_NET = 0x6f"

record LTCAddress =
  ltc_net :: byte
  ltc_addr :: gostring
  ltc_pubKey :: "byte list"

definition NewLTCAddress :: "byte list \<Rightarrow> bool \<Rightarrow> error + LTCAddress" where
  "NewLTCAddress pubKey main =
     Inr \<lparr>ltc_net = (if main then LTC_MAIN_NET else LTC_TEST_NET),
          ltc_addr = [], ltc_pubKey = pubKey\<rparr>"

definition LTCAddress_String ::
  "('pk, 'apk) externals \<Rightarrow> LTCAddress \<Rightarrow> gostring \<times> LTCAddress" where
  "LTCAddress_String ext a =
     (if ltc_addr a \<noteq> [] then (ltc_addr a, a)
      else
        let ba = \<lparr>btc_net = ltc_net a, btc_addr = [], btc_pubKey = ltc_pubKey a\<rparr>;
            s = fst (BTCAddress_String ext ba)
        in (s, a\<lparr>ltc_addr := s\<rparr>))"

definition CheckLTCAddress :: "('pk, 'apk) externals \<Rightarrow> gostring \<Rightarrow> bool \<Rightarrow> bool" where
  "CheckLTCAddress ext address main =
     (case ltcutil_DecodeAddress ext address main of
        Inl err \<Rightarrow> False
      | Inr addr \<Rightarrow> addr main)"

subsection \<open>ETH and ETC (\<^verbatim>\<open>eth.go\<close>)\<close>

record ETHAddress =
  eth_addr :: gostring
  eth_pubKey :: "byte list"

definition NewETHAddress :: "byte list \<Rightarrow> error + ETHAddress" where
  "NewETHAddress pubKey = Inr \<lparr>eth_addr = [], eth_pubKey = pubKey\<rparr>"

text \<open>
  The loop of \<^verbatim>\<open>ETHAddress.String\<close> over the hexadecimal digits, from index \<open>i\<close> on:
  \<^verbatim>\<open>if check[i] >= '8' && addrBytes[i] >= 'a' { addrBytes[i] -= 0x20 }\<close>. Reading
  \<^verbatim>\<open>check[i]\<close> beyond the end of \<^verbatim>\<open>check\<close> would panic.
\<close>

function ETHAddress_String_loop :: "gostring \<Rightarrow> byte list \<Rightarrow> nat \<Rightarrow> byte list option" where
  "ETHAddress_String_loop check addrBytes i =
     (if i < length addrBytes then
        (if length check \<le> i then None
         else ETHAddress_String_loop check
                (if check ! i \<ge> 0x38 \<and> addrBytes ! i \<ge> 0x61
                 then addrBytes[i := addrBytes ! i - 0x20] else addrBytes)
                (Suc i))
      else Some addrBytes)"
  by pat_completeness auto
termination
  by (relation "measure (\<lambda>(check, addrBytes, i). length addrBytes - i)") auto

text \<open>
  \<^verbatim>\<open>ETHAddress.String\<close>. It does not store the string in the object. The slice
  \<^verbatim>\<open>a.pubKey[1:]\<close> panics on an empty key.
\<close>

definition ETHAddress_String :: "('pk, 'apk) externals \<Rightarrow> ETHAddress \<Rightarrow> gostring option" where
  "ETHAddress_String ext a =
     (if eth_addr a \<noteq> [] then Some (eth_addr a)
      else if eth_pubKey a = [] then None
      else
        let b = digest_bytes (keccak256_Sum ext (drop 1 (eth_pubKey a)));
            addrBytes = hex_EncodeToString (drop 12 b);
            b = digest_bytes (keccak256_Sum ext addrBytes);
            check = hex_EncodeToString b
        in case ETHAddress_String_loop check addrBytes 0 of
             None \<Rightarrow> None
           | Some addrBytes \<Rightarrow> Some (go_string ''0x'' @ addrBytes))"

definition CheckETHAddress :: "('pk, 'apk) externals \<Rightarrow> gostring \<Rightarrow> bool" where
  "CheckETHAddress ext address =
     (case ethutil_NewMixedcaseAddressFromString ext address of
        Inl err \<Rightarrow> False
      | Inr (original, hex) \<Rightarrow> strings_ToLower ext original = strings_ToLower ext hex)"

subsection \<open>TRON (\<^verbatim>\<open>tron.go\<close>)\<close>

record TRONAddress =
  tron_addr :: gostring
  tron_pubKey :: "byte list"

text \<open>\<^verbatim>\<open>tronAddrFromPub\<close>; its only caller passes a key of 65 bytes, so that the slice
  \<^verbatim>\<open>pub[1:]\<close> is in range.\<close>

definition tronAddrFromPub :: "('pk, 'apk) externals \<Rightarrow> byte list \<Rightarrow> gostring" where
  "tronAddrFromPub ext pub =
     (let pubBytes = drop 1 pub;
          hashed = digest_bytes (keccak256_Sum ext pubBytes);
          last20 = drop (length hashed - 20) hashed;
          addr41 = [0x41] @ last20;
          hash2561 = digest_bytes (sha256_Sum256 ext addr41);
          hash2562 = digest_bytes (sha256_Sum256 ext hash2561);
          checksum = take 4 hash2562;
          rawAddr = addr41 @ checksum
      in base58_Encode rawAddr)"

definition NewTRONAddress :: "('pk, 'apk) externals \<Rightarrow> byte list \<Rightarrow> error + TRONAddress" where
  "NewTRONAddress ext pubKey =
     (if length pubKey \<noteq> 65 then Inl ErrPublicKeyFormat
      else Inr \<lparr>tron_addr = tronAddrFromPub ext pubKey, tron_pubKey = drop 1 pubKey\<rparr>)"

definition TRONAddress_String :: "TRONAddress \<Rightarrow> gostring" where
  "TRONAddress_String t = tron_addr t"

definition CheckTRONAddress :: "('pk, 'apk) externals \<Rightarrow> gostring \<Rightarrow> bool" where
  "CheckTRONAddress ext base58Addr =
     (let rawAddr = base58_Decode ext base58Addr in
      if length rawAddr \<noteq> 25 \<or> length rawAddr = 0 then False
      else if rawAddr ! 0 \<noteq> 0x41 then False
      else
        let addr41 = take 21 rawAddr;
            hash2561 = digest_bytes (sha256_Sum256 ext addr41);
            hash2562 = digest_bytes (sha256_Sum256 ext hash2561)
        in if take 4 (drop 21 rawAddr) \<noteq> take 4 hash2562 then False else True)"

subsection \<open>VDS (\<^verbatim>\<open>vds.go\<close>)\<close>

definition P2PKHAddrId :: "byte list" where "P2PKHAddrId = [0x10, 0x1C]"
definition MainAddrId :: gostring where "MainAddrId = go_string ''101c''"

record VDSAddress =
  vds_addr :: gostring
  vds_pubKey :: "byte list"

definition addrChecksum :: "('pk, 'apk) externals \<Rightarrow> byte list \<Rightarrow> byte list" where
  "addrChecksum ext input =
     (let first = digest_bytes (sha256_Sum256 ext input);
          second = digest_bytes (sha256_Sum256 ext first)
      in take 4 second)"

definition encodeAddr :: "('pk, 'apk) externals \<Rightarrow> byte list \<Rightarrow> byte list \<Rightarrow> error + gostring" where
  "encodeAddr ext addrHash prefix =
     (if length addrHash \<noteq> 20 then Inl (ErrorsNew ''incorrect hash length'')
      else
        let body = prefix @ take 20 addrHash;
            chk = addrChecksum ext body;
            checksum = take 4 chk
        in Inr (base58_Encode (body @ checksum)))"

definition VdsAddrFromPub :: "('pk, 'apk) externals \<Rightarrow> byte list \<Rightarrow> error + gostring" where
  "VdsAddrFromPub ext pub =
     (case ParsePubKey ext pub of
        Inl err \<Rightarrow> Inl err
      | Inr pubKey \<Rightarrow>
          (case btcutil_NewAddressPubKey ext (SerializeCompressed ext pubKey) of
             Inl err \<Rightarrow> Inl err
           | Inr addrPubKey \<Rightarrow>
               encodeAddr ext
                 (take 20 (digest_bytes (hash160_Hash160 ext (ScriptAddress ext addrPubKey))))
                 P2PKHAddrId))"

definition NewVDSAddress :: "('pk, 'apk) externals \<Rightarrow> byte list \<Rightarrow> error + VDSAddress" where
  "NewVDSAddress ext pubKey =
     (if length pubKey \<noteq> 65 \<or> pubKey ! 0 \<noteq> 0x04 then Inl ErrPublicKeyFormat
      else case VdsAddrFromPub ext pubKey of
             Inl err \<Rightarrow> Inl err
           | Inr addr \<Rightarrow> Inr \<lparr>vds_addr = addr, vds_pubKey = pubKey\<rparr>)"

definition VDSAddress_String :: "VDSAddress \<Rightarrow> gostring" where
  "VDSAddress_String t = vds_addr t"

definition CheckVDSAddress :: "('pk, 'apk) externals \<Rightarrow> gostring \<Rightarrow> bool" where
  "CheckVDSAddress ext address =
     (let addr = base58_Decode ext address in
      if length addr \<noteq> 26 then False
      else
        let body = take (length addr - 4) addr;
            prefix = hex_EncodeToString (take (length body - 20) body)
        in if prefix \<noteq> MainAddrId then False
           else
             let checksum = hex_EncodeToString (drop (length addr - 4) addr);
                 checksum2 = hex_EncodeToString (addrChecksum ext body)
             in if checksum \<noteq> checksum2 then False else True)"

subsection \<open>The entry points (\<^verbatim>\<open>address.go\<close>)\<close>

datatype Address =
    BTC BTCAddress
  | ETH ETHAddress
  | LTC LTCAddress
  | BCH BCHAddress
  | TRON TRONAddress
  | VDS VDSAddress

definition NewAddress ::
  "('pk, 'apk) externals \<Rightarrow> gostring \<Rightarrow> byte list \<Rightarrow> bool \<Rightarrow> error + Address" where
  "NewAddress ext chain pubKey main =
     (if chain = go_string ''BTC'' then map_sum id BTC (NewBTCAddress pubKey main)
      else if chain = go_string ''ETH'' then map_sum id ETH (NewETHAddress pubKey)
      else if chain = go_string ''LTC'' then map_sum id LTC (NewLTCAddress pubKey main)
      else if chain = go_string ''BCH'' then map_sum id BCH (NewBCHAddress pubKey main)
      else if chain = go_string ''ETC'' then map_sum id ETH (NewETHAddress pubKey)
      else if chain = go_string ''OMNI'' then map_sum id BTC (NewBTCAddress pubKey main)
      else if chain = go_string ''TRON'' then map_sum id TRON (NewTRONAddress ext pubKey)
      else if chain = go_string ''VDS'' then map_sum id VDS (NewVDSAddress ext pubKey)
      else Inl (ErrUnsupportedChain chain))"

text \<open>The match of the regular expression \<^verbatim>\<open>^([a-z0-9_]{5,11})$\<close> that \<^verbatim>\<open>CheckAddress\<close> uses for
  IOST: between 5 and 11 bytes, each a lower-case letter, a digit or an underscore.\<close>

definition IOST_MatchString :: "gostring \<Rightarrow> bool" where
  "IOST_MatchString address \<longleftrightarrow>
     5 \<le> length address \<and> length address \<le> 11 \<and>
     list_all (\<lambda>c. (0x61 \<le> c \<and> c \<le> 0x7A) \<or> (0x30 \<le> c \<and> c \<le> 0x39) \<or> c = 0x5F) address"

definition supported_chains :: "gostring list" where
  "supported_chains = map go_string
     [''BTC'', ''OMNI'', ''BCH'', ''LTC'', ''ETH'', ''ETC'', ''EOS'', ''IOST'', ''TRON'', ''VDS'']"

definition CheckAddress ::
  "('pk, 'apk) externals \<Rightarrow> gostring \<Rightarrow> gostring \<Rightarrow> bool \<Rightarrow> bool option" where
  "CheckAddress ext address chain main =
     (if chain = go_string ''BTC'' \<or> chain = go_string ''OMNI''
        then Some (CheckBTCAddress ext address main)
      else if chain = go_string ''BCH'' then CheckBCHAddress ext address main
      else if chain = go_string ''LTC'' then Some (CheckLTCAddress ext address main)
      else if chain = go_string ''ETH'' \<or> chain = go_string ''ETC''
        then Some (CheckETHAddress ext address)
      else if chain = go_string ''EOS'' then Some (CheckEOSAccount address)
      else if chain = go_string ''IOST'' then Some (IOST_MatchString address)
      else if chain = go_string ''TRON'' then Some (CheckTRONAddress ext address)
      else if chain = go_string ''VDS'' then Some (CheckVDSAddress ext address)
      else Some True)"

section \<open>Notions of the statements\<close>

text \<open>The key format that the constructors check: 65 bytes, the first of them the tag
  \<^verbatim>\<open>0x04\<close> of an uncompressed key.\<close>

definition uncompressed_key :: "byte list \<Rightarrow> bool" where
  "uncompressed_key pubKey \<longleftrightarrow> length pubKey = 65 \<and> pubKey ! 0 = 0x04"

text \<open>The first key of \<^verbatim>\<open>TestBCHAddress\<close> in \<^verbatim>\<open>bch_test.go\<close>, and the address the test
  expects for it.\<close>

definition TestBCHAddress_key :: "byte list" where
  "TestBCHAddress_key =
     [0x04, 0x78, 0x14, 0x04, 0x9c, 0xd3, 0x23, 0xb2, 0xf7, 0x07, 0x4c, 0x94, 0xed, 0xc0, 0xf9,
      0x61, 0xdb, 0x62, 0xbe, 0x35, 0x68, 0x7c, 0x24, 0x24, 0xb2, 0xad, 0x29, 0xf7, 0xf2, 0x83,
      0x7e, 0x03, 0x95, 0xe8, 0xeb, 0xbe, 0xe0, 0x4f, 0x81, 0x98, 0xa9, 0x1c, 0xd9, 0xc8, 0xac,
      0xbd, 0x97, 0xaa, 0xd7, 0x68, 0x51, 0x95, 0x7f, 0x3e, 0x63, 0x62, 0xf4, 0xdd, 0x41, 0x92,
      0xf3, 0x43, 0x1a, 0x71, 0xfb]"

definition TestBCHAddress_addr :: gostring where
  "TestBCHAddress_addr = go_string ''bitcoincash:qp4qttt9er93g0qwqtemzyw96d7p5jc25q4thz52r4''"

text \<open>
  The case-checksummed hexadecimal form in the words of the specification: the lower-case
  hexadecimal digits of the payload, where a digit is put in upper case if and only if it
  is a letter and the nibble at the same position of the Keccak digest of the lower-case
  string is 8 or more. The payload is the last 20 bytes of the Keccak digest of the key
  without its tag byte.
\<close>

definition is_alpha :: "byte \<Rightarrow> bool" where
  "is_alpha c \<longleftrightarrow> (0x61 \<le> c \<and> c \<le> 0x7A) \<or> (0x41 \<le> c \<and> c \<le> 0x5A)"

definition to_upper :: "byte \<Rightarrow> byte" where
  "to_upper c = (if 0x61 \<le> c \<and> c \<le> 0x7A then c - 0x20 else c)"

definition nibble :: "byte list \<Rightarrow> nat \<Rightarrow> byte" where
  "nibble h i = (if even i then drop_bit 4 (h ! (i div 2)) else h ! (i div 2) AND 0x0f)"

definition ETH_payload :: "('pk, 'apk) externals \<Rightarrow> byte list \<Rightarrow> byte list" where
  "ETH_payload ext pubKey = drop 12 (digest_bytes (keccak256_Sum ext (drop 1 pubKey)))"

definition case_checksummed :: "('pk, 'apk) externals \<Rightarrow> byte list \<Rightarrow> gostring" where
  "case_checksummed ext payload =
     (let lowerhex = hex_EncodeToString payload;
          h = digest_bytes (keccak256_Sum ext lowerhex)
      in map (\<lambda>i. if is_alpha (lowerhex ! i) \<and> nibble h i \<ge> 8
                   then to_upper (lowerhex ! i) else lowerhex ! i)
           [0..<length lowerhex])"

text \<open>
  A stand-in for the external packages, to run the model on concrete strings: its
  Base58Check decoder takes every string for the all-zero hash with version byte 0, a
  legacy address of the main net, and its parser takes every key.
\<close>

definition legacy_accepting :: "(unit, unit) externals" where
  "legacy_accepting = \<lparr>
     sha256_Sum256 = (\<lambda>_. 0), ripemd160_Sum = (\<lambda>_. 0), keccak256_Sum = (\<lambda>_. 0),
     hash160_Hash160 = (\<lambda>_. 0),
     base58_Decode = (\<lambda>_. []),
     base58_CheckDecode = (\<lambda>_. Inr (replicate 20 0, 0)),
     hex_DecodeString = (\<lambda>_. Inr []),
     ParsePubKey = (\<lambda>_. Inr ()),
     SerializeCompressed = (\<lambda>_. []),
     btcutil_NewAddressPubKey = (\<lambda>_. Inr ()),
     ScriptAddress = (\<lambda>_. []),
     btcutil_DecodeAddress = (\<lambda>_ _. Inl ErrInvalidFormat),
     ltcutil_DecodeAddress = (\<lambda>_ _. Inl ErrInvalidFormat),
     ethutil_NewMixedcaseAddressFromString = (\<lambda>_. Inl ErrInvalidFormat),
     strings_ToLower = (\<lambda>s. s) \<rparr>"

section \<open>Properties of the polynomial checksum\<close>

lemma xor_generators_unfold:
  "xor_generators c0 c =
    (let c2 = (if bit c0 0 then c XOR 0x98f2bc8e61 else c);
         c3 = (if bit c0 1 then c2 XOR 0x79b76d99e2 else c2);
         c4 = (if bit c0 2 then c3 XOR 0xf33e5fb3c4 else c3);
         c5 = (if bit c0 3 then c4 XOR 0xae2eabe2a8 else c4);
         c6 = (if bit c0 4 then c5 XOR 0x1e4f43e470 else c5)
     in c6)"
proof -
  have "[0..<5] = [0, 1, 2, 3, 4::nat]"
    by (simp add: upt_rec)
  then show ?thesis
    by (simp add: xor_generators_def generators_def Let_def)
qed

lemma byte_test_bit:
  assumes "k < 8"
  shows "((ucast (w :: uint64) :: byte) AND 2 ^ k > 0) = bit w k"
proof -
  have "((ucast w :: byte) AND 2 ^ k > 0) = ((ucast w :: byte) AND 2 ^ k \<noteq> 0)"
    by (simp add: word_neq_0_conv)
  also have "\<dots> = bit (ucast w :: byte) k"
    by (simp add: and_exp_eq_0_iff_not_bit)
  also have "\<dots> = bit w k"
    using assms by (simp add: bit_simps)
  finally show ?thesis .
qed

lemma byte_tests:
  fixes w :: uint64
  shows "((ucast w :: byte) AND 0x01 > 0) = bit w 0"
    and "((ucast w :: byte) AND 0x02 > 0) = bit w 1"
    and "((ucast w :: byte) AND 0x04 > 0) = bit w 2"
    and "((ucast w :: byte) AND 0x08 > 0) = bit w 3"
    and "((ucast w :: byte) AND 0x10 > 0) = bit w 4"
  using byte_test_bit [of 0 w] byte_test_bit [of 1 w] byte_test_bit [of 2 w]
    byte_test_bit [of 3 w] byte_test_bit [of 4 w]
  by simp_all

lemma shift_or_xor:
  fixes x :: uint64 and d :: byte
  assumes "d < 32"
  shows "push_bit 5 x OR ucast d = push_bit 5 x XOR ucast d"
proof -
  have "d AND mask 5 = d"
    using assms less_mask_eq [of d 5] by simp
  then have "take_bit 5 d = d"
    by (simp add: take_bit_eq_mask)
  then have d: "\<And>n. bit d n \<Longrightarrow> n < 5"
    by (metis bit_take_bit_iff)
  show ?thesis
    by (rule bit_eqI) (auto simp add: bit_simps dest: d)
qed

lemma polyMod_step_generators:
  "polyMod_step c d =
     xor_generators (drop_bit 35 c) (push_bit 5 (c AND 0x07ffffffff) XOR ucast d)"
  by (simp only: polyMod_step_def xor_generators_unfold Let_def byte_tests)

lemma polyMod_step_amended:
  "d < 32 \<Longrightarrow> polyMod_step c d = polyMod_amended_step c d"
  unfolding polyMod_step_generators polyMod_amended_step_def Let_def
  by (simp only: shift_or_xor)

lemma polyMod_loop_fold: "polyMod_loop c v = fold (\<lambda>d c. polyMod_step c d) v c"
  by (induction v arbitrary: c) simp_all

lemma fold_amended:
  "\<forall>d\<in>set v. d < 32 \<Longrightarrow>
     fold (\<lambda>d c. polyMod_step c d) v c = fold (\<lambda>d c. polyMod_amended_step c d) v c"
  by (induction v arbitrary: c) (simp_all add: polyMod_step_amended)

lemma polyMod_loop_append:
  "polyMod_loop c (xs @ ys) = polyMod_loop (polyMod_loop c xs) ys"
  by (induction xs arbitrary: c) simp_all

lemma polyMod_step_xor_d:
  "polyMod_step c d = polyMod_step c 0 XOR ucast d"
  by (simp add: polyMod_step_def Let_def ac_simps)

lemma polyMod_step_xor_low:
  assumes "take_bit 35 e = e"
  shows "polyMod_step (c XOR e) 0 = polyMod_step c 0 XOR push_bit 5 e"
proof -
  have "drop_bit 35 e = 0"
    using assms by (simp add: take_bit_eq_self_iff_drop_bit_eq_0)
  then have c0: "drop_bit 35 (c XOR e) = drop_bit 35 c"
    by (simp add: drop_bit_xor)  
  have "(c XOR e) AND 0x07ffffffff = (c AND 0x07ffffffff) XOR take_bit 35 e"
    by (simp add: take_bit_eq_mask mask_eq_exp_minus_1 bit.conj_xor_distrib2)
  then have sh: "push_bit 5 ((c XOR e) AND 0x07ffffffff) = push_bit 5 (c AND 0x07ffffffff) XOR push_bit 5 e"
    by (simp only: assms push_bit_xor)
  show ?thesis
   unfolding polyMod_step_generators c0 sh
   by (simp add: xor_generators_unfold Let_def ac_simps)
qed

lemma pack5_snoc: "pack5 (ds @ [d]) = push_bit 5 (pack5 ds) XOR ucast d"
  by (simp add: pack5_def)

lemma take_bit5_byte:
  fixes d :: byte
  assumes "d < 32"
  shows "take_bit 5 (ucast d :: uint64) = ucast d"
proof -
  have "d AND mask 5 = d"
    using assms less_mask_eq [of d 5] by simp
  then have "take_bit 5 d = d"
    by (simp add: take_bit_eq_mask)
  then have d: "\<And>n. bit d n \<Longrightarrow> n < 5"
    by (metis bit_take_bit_iff)
  show ?thesis
    by (rule bit_eqI) (auto simp add: bit_simps dest: d)
qed

lemma take_bit_self_mono:
  assumes "take_bit n x = x" and "n \<le> m"
  shows "take_bit m x = x"
proof -
  have "take_bit m (take_bit n x) = take_bit n x"
    using assms(2) by (simp add: min_def)
  then show ?thesis
    by (simp only: assms(1))
qed

lemma pack5_bound:
  "\<forall>d\<in>set ds. d < 32 \<Longrightarrow> take_bit (5 * length ds) (pack5 ds) = pack5 ds"
proof (induction ds rule: rev_induct)
  case Nil
  then show ?case by (simp add: pack5_def)
next
  case (snoc d ds)
  then have ih: "take_bit (5 * length ds) (pack5 ds) = pack5 ds" and d: "d < 32"
    by simp_all
  have a: "take_bit (5 * length ds + 5) (push_bit 5 (pack5 ds)) = push_bit 5 (pack5 ds)"
    by (simp add: take_bit_push_bit ih)
  have "take_bit (5 * length ds + 5) (take_bit 5 (ucast d :: uint64)) = take_bit 5 (ucast d)"
    by (simp add: min_def)
  then have b: "take_bit (5 * length ds + 5) (ucast d :: uint64) = ucast d"
    by (simp only: take_bit5_byte [OF d])
  have len: "5 * length (ds @ [d]) = 5 * length ds + 5"
    by simp
  show ?case
    unfolding len pack5_snoc take_bit_xor a b ..
qed

lemma polyMod_loop_snoc:
  "polyMod_loop c (ds @ [d]) = polyMod_step (polyMod_loop c ds) d"
  by (simp add: polyMod_loop_append)

lemma polyMod_loop_low:
  "length ds \<le> 8 \<Longrightarrow> \<forall>d\<in>set ds. d < 32 \<Longrightarrow>
     polyMod_loop c ds = polyMod_loop c (replicate (length ds) 0) XOR pack5 ds"
proof (induction ds rule: rev_induct)
  case Nil
  then show ?case by (simp add: pack5_def)
next
  case (snoc d ds)
  then have ih: "polyMod_loop c ds = polyMod_loop c (replicate (length ds) 0) XOR pack5 ds"
    and len: "length ds \<le> 7" and small: "\<forall>d\<in>set ds. d < 32"
    by simp_all
  have "take_bit (5 * length ds) (pack5 ds) = pack5 ds"
    using small by (rule pack5_bound)
  then have low: "take_bit 35 (pack5 ds) = pack5 ds"
    by (rule take_bit_self_mono) (use len in simp)
  have "polyMod_loop c (ds @ [d]) = polyMod_step (polyMod_loop c ds) d"
    by (rule polyMod_loop_snoc)
  also have "\<dots> = polyMod_step (polyMod_loop c (replicate (length ds) 0) XOR pack5 ds) 0 XOR ucast d"
    by (simp only: ih polyMod_step_xor_d [of _ d])
  also have "\<dots> = (polyMod_step (polyMod_loop c (replicate (length ds) 0)) 0 XOR push_bit 5 (pack5 ds)) XOR ucast d"
    by (simp only: polyMod_step_xor_low [OF low])
  also have "\<dots> = polyMod_loop c (replicate (length ds) 0 @ [0]) XOR pack5 (ds @ [d])"
    by (simp only: polyMod_loop_snoc pack5_snoc xor.assoc)
  also have "replicate (length ds) (0::byte) @ [0] = replicate (length (ds @ [d])) 0"
    by (simp add: replicate_append_same)
  finally show ?case .
qed

lemma xor_generators_bound:
  "take_bit 40 c = c \<Longrightarrow> take_bit 40 (xor_generators c0 c) = xor_generators c0 c"
  by (simp add: xor_generators_unfold Let_def take_bit_xor)

lemma polyMod_step_bound: "take_bit 40 (polyMod_step c d) = polyMod_step c d"
proof -
  have d: "take_bit 40 (ucast d :: uint64) = ucast d"
    by (rule bit_eqI) (auto simp add: bit_simps dest: bit_imp_le_length)
  have "c AND 0x07ffffffff = take_bit 35 c"
    by (simp add: take_bit_eq_mask mask_eq_exp_minus_1)
  moreover have "take_bit 40 (push_bit 5 (take_bit 35 c)) = push_bit 5 (take_bit 35 c)"
    by (simp add: take_bit_push_bit)
  ultimately have "take_bit 40 (push_bit 5 (c AND 0x07ffffffff)) = push_bit 5 (c AND 0x07ffffffff)"
    by (simp only:)
  then have "take_bit 40 (push_bit 5 (c AND 0x07ffffffff) XOR ucast d)
      = push_bit 5 (c AND 0x07ffffffff) XOR ucast d"
    by (simp only: take_bit_xor d)
  then show ?thesis
    unfolding polyMod_step_generators by (rule xor_generators_bound)
qed

lemma polyMod_loop_bound:
  "take_bit 40 c = c \<Longrightarrow> take_bit 40 (polyMod_loop c v) = polyMod_loop c v"
  by (induction v arbitrary: c) (simp_all add: polyMod_step_bound)

lemma polyMod_bound: "take_bit 40 (polyMod v) = polyMod v"
proof -
  have "take_bit 40 (polyMod_loop 1 v) = polyMod_loop 1 v"
    by (rule polyMod_loop_bound) simp
  then show ?thesis
    by (simp add: polyMod_def take_bit_xor)
qed

lemma groups5_Suc:
  "groups5 (Suc k) m = groups5 k (drop_bit 5 m) @ [ucast (m AND 0x1f)]"
proof -
  have "5 * (Suc k - 1 - i) = 5 + 5 * (k - 1 - i)" if "i < k" for i
    using that by simp
  then have "map (\<lambda>i. ucast (drop_bit (5 * (Suc k - 1 - i)) m AND 0x1f) :: byte) [0..<k]
      = map (\<lambda>i. ucast (drop_bit (5 * (k - 1 - i)) (drop_bit 5 m) AND 0x1f)) [0..<k]"
    by (simp add: drop_bit_drop_bit add.commute)
  then show ?thesis
    by (simp add: groups5_def)
qed

lemma ucast_low5: "(ucast (ucast (m AND 0x1f :: uint64) :: byte) :: uint64) = take_bit 5 m"
proof -
  have "m AND 0x1f = take_bit 5 m"
    by (simp add: take_bit_eq_mask mask_eq_exp_minus_1)
  moreover have "(ucast (ucast (take_bit 5 m) :: byte) :: uint64) = take_bit 5 m"
    by (rule bit_eqI) (auto simp add: bit_simps)
  ultimately show ?thesis
    by (simp only:)
qed

lemma pack5_groups5: "pack5 (groups5 k m) = take_bit (5 * k) m"
proof (induction k arbitrary: m)
  case 0
  then show ?case by (simp add: groups5_def pack5_def)
next
  case (Suc k)
  have "pack5 (groups5 (Suc k) m) = push_bit 5 (take_bit (5 * k) (drop_bit 5 m)) XOR take_bit 5 m"
    by (simp only: groups5_Suc pack5_snoc Suc ucast_low5)
  also have "\<dots> = take_bit (5 * Suc k) m"
    by (rule bit_eqI) (auto simp add: bit_simps)
  finally show ?case .
qed

lemma groups5_small: "\<forall>d\<in>set (groups5 k m). d < 32"
proof -
  have "(ucast (w AND 0x1f) :: byte) < 32" for w :: uint64
  proof -
    have "(ucast (w AND mask 5) :: byte) = (ucast w :: byte) AND mask 5"
      by (rule bit_eqI) (auto simp add: bit_simps)
    moreover have "(ucast w :: byte) AND mask 5 < 2 ^ 5"
      by (rule and_mask_less_size) (simp add: word_size)
    ultimately show ?thesis
      by (simp add: mask_eq_exp_minus_1)
  qed
  then show ?thesis
    by (simp add: groups5_def)
qed

lemma createChecksum_groups5:
  "createChecksum prefix payload =
     groups5 8 (polyMod (expandPrefix prefix @ payload @ replicate 8 0))"
proof -
  have "replicate 8 (0::byte) = [0, 0, 0, 0, 0, 0, 0, 0]"
    by (simp add: numeral_eq_Suc)
  then show ?thesis
    by (simp add: createChecksum_def groups5_def cat_def Let_def)
qed

lemma take_bit_40_less:
  fixes w :: uint64
  assumes "take_bit 40 w = w"
  shows "w < 2 ^ 40"
proof -
  have "unat (take_bit 40 w) = take_bit 40 (unat w)"
    by (rule unsigned_take_bit_eq)
  then have "unat w = take_bit 40 (unat w)"
    by (simp only: assms)
  then have "unat w = unat w mod 2 ^ 40"
    by (simp only: take_bit_eq_mod)
  moreover have "unat w mod 2 ^ 40 < 2 ^ 40"
    by simp
  ultimately have "unat w < 2 ^ 40"
    by simp
  then show ?thesis
    by (simp add: word_less_nat_alt)
qed

text \<open>
  C1, as amended. For every input whose values are all below 32, \<^verbatim>\<open>polyMod\<close> keeps a state
  \<open>c\<close> that starts at 1; for each value \<open>d\<close> it takes \<open>c0 = c >> 35\<close>, sets
  \<open>c = ((c & 0x07FFFFFFFF) << 5) | d\<close> (the mask is applied before the shift, so that
  the state stays below \<open>2 ^ 40\<close>), and XORs generator \<open>k\<close> into \<open>c\<close> whenever bit \<open>k\<close> of \<open>c0\<close>
  is set; it returns \<open>c XOR 1\<close>.
\<close>

theorem polyMod_amended_correct:
  "\<forall>d\<in>set v. d < 32 \<Longrightarrow>
     polyMod v = polyMod_amended v \<and> polyMod_loop 1 v < 2 ^ 40 \<and> polyMod v < 2 ^ 40"
proof (intro conjI)
  assume "\<forall>d\<in>set v. d < 32"
  then show "polyMod v = polyMod_amended v"
    by (simp add: polyMod_def polyMod_amended_def polyMod_loop_fold fold_amended)
  have "take_bit 40 (polyMod_loop 1 v) = polyMod_loop 1 v"
    by (rule polyMod_loop_bound) simp
  then show "polyMod_loop 1 v < 2 ^ 40"
    by (rule take_bit_40_less)
  show "polyMod v < 2 ^ 40"
    using polyMod_bound by (rule take_bit_40_less)
qed

theorem polyMod_amended_correct_witness:
  "polyMod [3, 17, 31] = polyMod_amended [3, 17, 31] \<and> polyMod [3, 17, 31] < 2 ^ 40"
proof -
  have "\<forall>d\<in>set [3, 17, 31 :: byte]. d < 32"
    by (simp add: word_less_nat_alt)
  from polyMod_amended_correct [OF this] show ?thesis
    by blast
qed

text \<open>
  C1 as the specification states it, with the mask applied after the shift, fails: on
  seven zero values the source returns \<open>2 ^ 35 + 1\<close>, the stated procedure 1.
\<close>

theorem polyMod_spec_counterexample:
  "polyMod [0, 0, 0, 0, 0, 0, 0] = 0x800000001
     \<and> polyMod_spec [0, 0, 0, 0, 0, 0, 0] = 1"
  by (simp add: polyMod_def polyMod_step_def polyMod_spec_def polyMod_spec_step_def
      xor_generators_unfold Let_def)

lemma createChecksum_verifyChecksum:
  "verifyChecksum prefix (cat payload (createChecksum prefix payload))"
proof -
  define enc where "enc = expandPrefix prefix @ payload"
  define C where "C = polyMod_loop 1 (enc @ replicate 8 0)"
  define cs where "cs = createChecksum prefix payload"
  have cs: "cs = groups5 8 (C XOR 1)"
    by (simp add: cs_def createChecksum_groups5 C_def enc_def polyMod_def)
  have len: "length cs = 8"
    by (simp add: cs groups5_def)
  have small: "\<forall>d\<in>set cs. d < 32"
    unfolding cs by (rule groups5_small)
  have "take_bit 40 (C XOR 1) = C XOR 1"
    using polyMod_bound [of "enc @ replicate 8 0"] by (simp add: polyMod_def C_def)
  then have pk: "pack5 cs = C XOR 1"
    using pack5_groups5 [of 8 "C XOR 1"] by (simp add: cs)
  have "polyMod_loop 1 (enc @ cs) = polyMod_loop (polyMod_loop 1 enc) cs"
    by (rule polyMod_loop_append)
  also have "\<dots> = polyMod_loop (polyMod_loop 1 enc) (replicate (length cs) 0) XOR pack5 cs"
    using len small by (intro polyMod_loop_low) simp_all
  also have "\<dots> = C XOR (C XOR 1)"
    by (simp only: len pk C_def polyMod_loop_append)
  also have "\<dots> = 1"
    by (simp flip: xor.assoc)
  finally have "polyMod (enc @ cs) = 0"
    by (simp add: polyMod_def)
  then show ?thesis
    by (simp add: verifyChecksum_def cat_def enc_def cs_def)
qed

text \<open>
  C3. For every prefix and every payload, the payload followed by its freshly computed
  checksum verifies: \<^verbatim>\<open>polyMod\<close> over the expanded prefix, the payload and the eight
  checksum groups is 0.
\<close>

theorem createChecksum_verifies:
  "verifyChecksum prefix (cat payload (createChecksum prefix payload))
   \<and> length (createChecksum prefix payload) = 8
   \<and> polyMod (expandPrefix prefix @ payload @ createChecksum prefix payload) = 0"
proof -
  have "verifyChecksum prefix (cat payload (createChecksum prefix payload))"
    by (rule createChecksum_verifyChecksum)
  moreover have "length (createChecksum prefix payload) = 8"
    by (simp add: createChecksum_def Let_def)
  ultimately show ?thesis
    by (simp add: verifyChecksum_def cat_def)
qed

theorem createChecksum_verifies_example:
  "verifyChecksum (go_string ''bitcoincash'')
     (cat [1, 2, 3] (createChecksum (go_string ''bitcoincash'') [1, 2, 3]))"
  by (rule conjunct1 [OF createChecksum_verifies])

section \<open>Properties of bit regrouping\<close>

subsection \<open>Digits and numbers\<close>

lemma digits_first: "digits B (Suc k) x = ((x div B ^ k) mod B) # digits B k x"
proof (induction k arbitrary: x)
  case 0
  then show ?case by simp
next
  case (Suc k)
  have "digits B (Suc (Suc k)) x = digits B (Suc k) (x div B) @ [x mod B]"
    by simp
  also have "\<dots> = ((x div B div B ^ k) mod B # digits B k (x div B)) @ [x mod B]"
    by (simp only: Suc)
  also have "\<dots> = (x div B ^ Suc k) mod B # digits B (Suc k) x"
    by (simp add: div_mult2_eq)
  finally show ?case .
qed

lemma digits_append: "digits B (k + q) x = digits B k (x div B ^ q) @ digits B q x"
proof (induction q arbitrary: x)
  case 0
  then show ?case by simp
next
  case (Suc q)
  have "digits B (k + Suc q) x = digits B (k + q) (x div B) @ [x mod B]"
    by simp
  also have "\<dots> = digits B k (x div B div B ^ q) @ digits B q (x div B) @ [x mod B]"
    by (simp only: Suc append_assoc)
  also have "\<dots> = digits B k (x div B ^ Suc q) @ digits B (Suc q) x"
    by (simp add: div_mult2_eq)
  finally show ?case .
qed

lemma mod_mult_div_left:
  fixes x :: nat
  shows "x mod (B * C) div B = (x div B) mod C"
proof (cases "B = 0")
  case True
  then show ?thesis by simp
next
  case False
  then show ?thesis
    by (simp add: mod_mult2_eq)
qed

lemma digits_cong_mod:
  "x mod B ^ q = y mod B ^ q \<Longrightarrow> digits B q x = digits B q y"
proof (induction q arbitrary: x y)
  case 0
  then show ?case by simp
next
  case (Suc q)
  from Suc.prems have "x mod (B * B ^ q) mod B = y mod (B * B ^ q) mod B"
    by simp
  then have m: "x mod B = y mod B"
    by (simp add: mod_mult_self1_is_0 mod_mod_cancel)
  from Suc.prems have "x mod (B * B ^ q) div B = y mod (B * B ^ q) div B"
    by simp
  then have "(x div B) mod B ^ q = (y div B) mod B ^ q"
    by (simp only: mod_mult_div_left)
  then have "digits B q (x div B) = digits B q (y div B)"
    by (rule Suc.IH)
  with m show ?case
    by simp
qed

lemma mod_div_mod_window:
  fixes x :: nat
  assumes "s + u \<le> M"
  shows "(x mod 2 ^ M div 2 ^ s) mod 2 ^ u = (x div 2 ^ s) mod 2 ^ u"
proof -
  have "take_bit u (drop_bit s (take_bit M x)) = take_bit u (drop_bit s x)"
    using assms by (intro bit_eqI) (auto simp add: bit_simps)
  then show ?thesis
    by (simp add: take_bit_eq_mod drop_bit_eq_div)
qed

lemma number_snoc: "number F (vs @ [v]) = number F vs * 2 ^ F + v"
  by (simp add: number_def)

lemma accumulate_snoc:
  "accumulate f ma (vs @ [v]) = (push_bit (unat f) (accumulate f ma vs) OR v) AND ma"
  by (simp add: accumulate_def)

lemma length_digits: "length (digits B k x) = k"
  by (induction k arbitrary: x) simp_all

lemma digits_less: "0 < B \<Longrightarrow> \<forall>d\<in>set (digits B k x). d < B"
  by (induction k arbitrary: x) simp_all

lemma number_digits: "number F (digits (2 ^ F) k x) = x mod (2 ^ F) ^ k"
proof (induction k arbitrary: x)
  case 0
  then show ?case by (simp add: number_def)
next
  case (Suc k)
  have "number F (digits (2 ^ F) (Suc k) x) = (x div 2 ^ F) mod (2 ^ F) ^ k * 2 ^ F + x mod 2 ^ F"
    by (simp add: number_snoc Suc)
  also have "\<dots> = x mod (2 ^ F) ^ Suc k"
    by (simp add: mod_mult2_eq mult.commute)
  finally show ?case .
qed

lemma digits_number:
  "\<forall>v\<in>set xs. v < 2 ^ F \<Longrightarrow> digits (2 ^ F) (length xs) (number F xs) = xs"
proof (induction xs rule: rev_induct)
  case Nil
  then show ?case by simp
next
  case (snoc v xs)
  then have "digits (2 ^ F) (length xs) (number F xs) = xs" and "v < 2 ^ F"
    by simp_all
  then show ?case
    by (simp add: number_snoc)
qed

lemma number_less:
  "\<forall>v\<in>set xs. v < 2 ^ F \<Longrightarrow> number F xs < (2 ^ F) ^ length xs"
proof (induction xs rule: rev_induct)
  case Nil
  then show ?case by (simp add: number_def)
next
  case (snoc v xs)
  then have "number F xs + 1 \<le> (2 ^ F) ^ length xs" and v: "v < 2 ^ F"
    by simp_all
  then have "(number F xs + 1) * 2 ^ F \<le> (2 ^ F) ^ length xs * 2 ^ F"
    by (simp only: mult_le_mono1)
  with v show ?case
    by (simp add: number_snoc algebra_simps)
qed

subsection \<open>Words read as numbers\<close>

lemma unat_drop_and_mask:
  "unat (drop_bit s (w :: 'a::len word) AND mask t) = (unat w div 2 ^ s) mod 2 ^ t"
proof -
  have "drop_bit s w AND mask t = take_bit t (drop_bit s w)"
    by (simp only: take_bit_eq_mask)
  then have "unat (drop_bit s w AND mask t) = take_bit t (drop_bit s (unat w))"
    by (simp only: unsigned_take_bit_eq unat_drop_bit_eq)
  then show ?thesis
    by (simp only: take_bit_eq_mod drop_bit_eq_div)
qed

lemma unat_shift_or:
  fixes a v :: uint
  assumes v: "unat v < 2 ^ F" and a: "unat a < 2 ^ M" and FM: "F + M < 64"
  shows "unat (push_bit F a OR v) = unat a * 2 ^ F + unat v"
proof -
  have "take_bit F v = v"
    using v by (simp add: word_eq_iff_unsigned [where ?'a = nat] unsigned_take_bit_eq
        take_bit_nat_eq_self)
  then have "\<not> bit v n" if "F \<le> n" for n
    using that by (metis bit_take_bit_iff not_le)
  then have "\<not> bit (push_bit F a) n \<or> \<not> bit v n" for n
    by (auto simp add: bit_simps)
  then have or: "push_bit F a OR v = push_bit F a + v"
    by (rule disjunctive_add [symmetric])
  have "unat a * 2 ^ F < 2 ^ M * 2 ^ F"
    using a by simp
  also have "\<dots> = 2 ^ (F + M)"
    by (simp add: power_add)
  also have "\<dots> < (2::nat) ^ 64"
    using FM by (intro power_strict_increasing) simp_all
  finally have small: "unat a * 2 ^ F < 2 ^ 64" .
  have "unat (push_bit F a) = take_bit 64 (push_bit F (unat a))"
    by (simp add: unsigned_push_bit_eq)
  also have "\<dots> = push_bit F (unat a)"
    by (rule take_bit_nat_eq_self) (use small in \<open>simp add: push_bit_eq_mult\<close>)
  finally have p: "unat (push_bit F a) = unat a * 2 ^ F"
    by (simp add: push_bit_eq_mult)
  have "unat a * 2 ^ F + unat v < 2 ^ M * 2 ^ F"
  proof -
    have "unat a + 1 \<le> 2 ^ M"
      using a by simp
    then have "(unat a + 1) * 2 ^ F \<le> 2 ^ M * 2 ^ F"
      by (simp only: mult_le_mono1)
    then show ?thesis
      using v by (simp add: algebra_simps)
  qed
  also have "\<dots> = 2 ^ (F + M)"
    by (simp add: power_add)
  also have "\<dots> < (2::nat) ^ 64"
    using FM by (intro power_strict_increasing) simp_all
  finally have "unat (push_bit F a) + unat v < 2 ^ LENGTH(64)"
    by (simp add: p)
  then have "unat (push_bit F a + v) = unat (push_bit F a) + unat v"
    by (simp only: unat_add_lem)
  then show ?thesis
    by (simp only: or p)
qed

lemma unat_and_mask: "unat (w AND mask t) = unat w mod 2 ^ t" for w :: "'a::len word"
  using unat_drop_and_mask [of 0 w t] by simp

lemma unat_byte_less: "unat (b :: byte) < 2 ^ 8"
  using unsigned_less [of b] by simp

lemma unat_ucast_byte: "unat (ucast (b :: byte) :: uint) = unat b"
proof -
  have "unat b < 2 ^ 64"
    using unat_byte_less [of b] by simp
  then show ?thesis
    by (simp add: unsigned_ucast_eq take_bit_nat_eq_self)
qed

lemma unat_ucast_uint: "unat (w :: uint) < 256 \<Longrightarrow> unat (ucast w :: byte) = unat w"
  by (simp add: unsigned_ucast_eq take_bit_nat_eq_self)

lemma unat_push_and_mask:
  fixes a :: uint
  assumes "t \<le> 64"
  shows "unat (push_bit s a AND mask t) = (unat a * 2 ^ s) mod 2 ^ t"
proof -
  have "unat (push_bit s a AND mask t) = unat (push_bit s a) mod 2 ^ t"
    by (rule unat_and_mask)
  also have "unat (push_bit s a) = take_bit 64 (push_bit s (unat a))"
    by (simp add: unsigned_push_bit_eq)
  also have "\<dots> = (unat a * 2 ^ s) mod 2 ^ 64"
    by (simp only: take_bit_eq_mod push_bit_eq_mult)
  also have "(unat a * 2 ^ s) mod 2 ^ 64 mod 2 ^ t = (unat a * 2 ^ s) mod 2 ^ t"
    using assms by (intro mod_mod_cancel le_imp_power_dvd)
  finally show ?thesis .
qed

lemma map_ucast_small:
  "\<forall>d\<in>set (map unat ws). d < 256 \<Longrightarrow> map unat (map ucast (ws :: uint list) :: byte list) = map unat ws"
  by (induction ws) (simp_all add: unat_ucast_uint)

lemma inj_unat_map: "map unat xs = map unat ys \<Longrightarrow> xs = (ys :: byte list)"
proof -
  have "inj (unat :: byte \<Rightarrow> nat)"
    by (rule injI) (simp add: word_eq_iff_unsigned [where ?'a = nat])
  then show "map unat xs = map unat ys \<Longrightarrow> xs = ys"
    by (simp add: inj_map_eq_map)
qed

lemma push_bit_1_minus_1: "push_bit n 1 - 1 = (mask n :: uint)"
  by (simp add: mask_eq_exp_minus_1)

subsection \<open>The loops\<close>

lemma convertBits_inner_digits:
  fixes tobits maxv acc bits :: uint
  assumes T: "0 < unat tobits" "unat tobits < 64" and maxv: "maxv = mask (unat tobits)"
  shows "\<exists>ret'. convertBits_inner tobits maxv acc bits ret
            = Some (word_of_nat (unat bits mod unat tobits), ret') \<and>
          map unat ret' = map unat ret
            @ digits (2 ^ unat tobits) (unat bits div unat tobits)
                (unat acc div 2 ^ (unat bits mod unat tobits))"
proof (induction "unat bits" arbitrary: bits ret rule: less_induct)
  case less
  let ?T = "unat tobits"
  show ?case
  proof (cases "tobits \<le> bits")
    case False
    then have lt: "unat bits < ?T"
      by (simp add: word_le_nat_alt)
    then have "convertBits_inner tobits maxv acc bits ret = Some (bits, ret)"
      using False by (subst convertBits_inner.simps) simp
    then show ?thesis
      using lt by simp
  next
    case True
    then have ge: "?T \<le> unat bits"
      by (simp add: word_le_nat_alt)
    define bits1 where "bits1 = bits - tobits"
    have u1: "unat bits1 = unat bits - ?T"
      unfolding bits1_def using True by (simp add: unat_sub)
    then have "unat bits1 < unat bits"
      using T(1) ge by simp
    from less [OF this, of "ret @ [drop_bit (unat bits1) acc AND maxv]"]
    obtain ret' where r: "convertBits_inner tobits maxv acc bits1
           (ret @ [drop_bit (unat bits1) acc AND maxv])
         = Some (word_of_nat (unat bits1 mod ?T), ret')"
      and d: "map unat ret' = map unat (ret @ [drop_bit (unat bits1) acc AND maxv])
            @ digits (2 ^ ?T) (unat bits1 div ?T) (unat acc div 2 ^ (unat bits1 mod ?T))"
      by blast
    have m: "unat bits1 mod ?T = unat bits mod ?T"
      using ge by (simp add: u1 le_mod_geq)
    have q: "unat bits div ?T = Suc (unat bits1 div ?T)"
      using ge T(1) by (simp add: u1 le_div_geq)
    define q1 where "q1 = unat bits1 div ?T"
    define r where "r = unat bits mod ?T"
    have s: "unat bits1 = r + ?T * q1"
      unfolding q1_def r_def using m by (metis add.commute mult_div_mod_eq)
    have "unat acc div 2 ^ (r + ?T * q1) = unat acc div 2 ^ r div (2 ^ ?T) ^ q1"
      by (simp add: power_add power_mult div_mult2_eq)
    then have e: "unat (drop_bit (unat bits1) acc AND maxv)
        = (unat acc div 2 ^ r div (2 ^ ?T) ^ q1) mod 2 ^ ?T"
      unfolding maxv unat_drop_and_mask s by simp
    have "convertBits_inner tobits maxv acc bits ret
        = Some (word_of_nat (unat bits mod ?T), ret')"
      using True r m by (subst convertBits_inner.simps) (simp add: bits1_def)
    moreover have "map unat ret' = map unat ret
        @ digits (2 ^ ?T) (unat bits div ?T) (unat acc div 2 ^ (unat bits mod ?T))"
      unfolding d q digits_first m using e by (simp add: q1_def r_def)
    ultimately show ?thesis
      by blast
  qed
qed

lemma convertBits_loop_append:
  "convertBits_loop f t mv ma (xs @ ys) acc bits ret =
     (case convertBits_loop f t mv ma xs acc bits ret of
        None \<Rightarrow> None
      | Some (a, b, r) \<Rightarrow> convertBits_loop f t mv ma ys a b r)"
  by (induction xs arbitrary: acc bits ret) (auto simp add: Let_def split: option.splits)

lemma convertBits_loop_single:
  "convertBits_loop f t mv ma [v] acc bits ret =
     (case convertBits_inner t mv ((push_bit (unat f) acc OR v) AND ma) (bits + f) ret of
        None \<Rightarrow> None
      | Some (b, r) \<Rightarrow> Some ((push_bit (unat f) acc OR v) AND ma, b, r))"
  by (simp add: Let_def split: option.splits)

lemma convertBits_loop_step:
  fixes f t acc v ma :: uint
  assumes T: "0 < unat t" "unat t \<le> 8" and F: "unat f \<le> 8" and b: "unat bits < unat t"
  defines "acc' \<equiv> (push_bit (unat f) acc OR v) AND ma"
  shows "\<exists>bits' ret'.
           convertBits_loop f t (mask (unat t)) ma [v] acc bits ret = Some (acc', bits', ret') \<and>
           unat bits' = (unat bits + unat f) mod unat t \<and>
           map unat ret' = map unat ret
             @ digits (2 ^ unat t) ((unat bits + unat f) div unat t)
                 (unat acc' div 2 ^ ((unat bits + unat f) mod unat t))"
proof -
  have "unat bits + unat f < 2 ^ LENGTH(64)"
    using T F b by simp
  then have u: "unat (bits + f) = unat bits + unat f"
    by (simp only: unat_add_lem)
  have "unat t < 64"
    using T by simp
  from convertBits_inner_digits [OF T(1) this refl, of acc' "bits + f" ret]
  obtain ret' where r: "convertBits_inner t (mask (unat t)) acc' (bits + f) ret
        = Some (word_of_nat (unat (bits + f) mod unat t), ret')"
    and d: "map unat ret' = map unat ret
        @ digits (2 ^ unat t) (unat (bits + f) div unat t)
            (unat acc' div 2 ^ (unat (bits + f) mod unat t))"
    by blast
  have "(unat bits + unat f) mod unat t < 2 ^ LENGTH(64)"
    using T by (intro less_trans [OF mod_less_divisor]) simp_all
  then have "unat (word_of_nat ((unat bits + unat f) mod unat t) :: uint)
      = (unat bits + unat f) mod unat t"
    by (intro of_nat_inverse [OF refl])
  with r d show ?thesis
    unfolding u by (simp add: convertBits_loop_single acc'_def)
qed

lemma convertBits_loop_bits:
  fixes f t :: uint
  assumes T: "0 < unat t" "unat t \<le> 8" and F: "unat f \<le> 8"
  shows "\<exists>bits ret.
           convertBits_loop f t (mask (unat t)) ma vs 0 0 [] = Some (accumulate f ma vs, bits, ret) \<and>
           unat bits = (unat f * length vs) mod unat t"
proof (induction vs rule: rev_induct)
  case Nil
  then show ?case by (simp add: accumulate_def)
next
  case (snoc v vs)
  then obtain bits ret where
    l: "convertBits_loop f t (mask (unat t)) ma vs 0 0 [] = Some (accumulate f ma vs, bits, ret)"
    and b: "unat bits = (unat f * length vs) mod unat t"
    by blast
  have "unat bits < unat t"
    using T(1) by (simp add: b)
  from convertBits_loop_step [OF T F this, where acc = "accumulate f ma vs" and v = v
      and ma = ma and ret = ret]
  obtain bits' ret' where
    s: "convertBits_loop f t (mask (unat t)) ma [v] (accumulate f ma vs) bits ret
          = Some (accumulate f ma (vs @ [v]), bits', ret')"
    and b': "unat bits' = (unat bits + unat f) mod unat t"
    unfolding accumulate_snoc by blast
  have "(unat bits + unat f) mod unat t = (unat f * length (vs @ [v])) mod unat t"
    unfolding b by (simp add: mod_simps algebra_simps)
  with l s b' show ?case
    by (simp add: convertBits_loop_append)
qed

lemma number_shift: "v < 2 ^ F \<Longrightarrow> (n * 2 ^ F + v) div 2 ^ F = (n :: nat)"
  by simp

lemma convertBits_loop_digits:
  fixes f t :: uint
  assumes T: "0 < unat t" "unat t \<le> 8" and F: "0 < unat f" "unat f \<le> 8"
    and vals: "\<forall>v\<in>set vs. unat v < 2 ^ unat f"
  defines "M \<equiv> unat f + unat t - 1"
  shows "\<exists>acc bits ret.
           convertBits_loop f t (mask (unat t)) (mask M) vs 0 0 [] = Some (acc, bits, ret) \<and>
           unat bits = (unat f * length vs) mod unat t \<and>
           unat acc = number (unat f) (map unat vs) mod 2 ^ M \<and>
           map unat ret = digits (2 ^ unat t) ((unat f * length vs) div unat t)
              (number (unat f) (map unat vs) div 2 ^ ((unat f * length vs) mod unat t))"
  using vals
proof (induction vs rule: rev_induct)
  case Nil
  then show ?case by (simp add: number_def)
next
  case (snoc v vs)
  let ?F = "unat f" and ?T = "unat t"
  let ?N = "number ?F (map unat vs)"
  let ?N' = "number ?F (map unat (vs @ [v]))"
  from snoc obtain acc bits ret where
    l: "convertBits_loop f t (mask ?T) (mask M) vs 0 0 [] = Some (acc, bits, ret)"
    and b: "unat bits = (?F * length vs) mod ?T"
    and a: "unat acc = ?N mod 2 ^ M"
    and d: "map unat ret = digits (2 ^ ?T) ((?F * length vs) div ?T) (?N div 2 ^ ((?F * length vs) mod ?T))"
    by auto
  from snoc.prems have v: "unat v < 2 ^ ?F"
    by simp
  have N': "?N' = ?N * 2 ^ ?F + unat v"
    by (simp add: number_snoc)
  have bl: "unat bits < ?T"
    using T(1) by (simp add: b)
  define acc' where "acc' = (push_bit ?F acc OR v) AND mask M"
  from convertBits_loop_step [OF T F(2) bl, where acc = acc and v = v and ma = "mask M"
      and ret = ret]
  obtain bits' ret' where
    s: "convertBits_loop f t (mask ?T) (mask M) [v] acc bits ret = Some (acc', bits', ret')"
    and b': "unat bits' = (unat bits + ?F) mod ?T"
    and d': "map unat ret' = map unat ret
      @ digits (2 ^ ?T) ((unat bits + ?F) div ?T) (unat acc' div 2 ^ ((unat bits + ?F) mod ?T))"
    unfolding acc'_def by blast
  define k where "k = (?F * length vs) div ?T"
  define q where "q = (unat bits + ?F) div ?T"
  define r where "r = (unat bits + ?F) mod ?T"
  have total: "?F * length (vs @ [v]) = ?T * (k + q) + r"
  proof -
    have "?F * length vs = ?T * k + unat bits"
      unfolding k_def b by simp
    moreover have "unat bits + ?F = ?T * q + r"
      unfolding q_def r_def by simp
    ultimately show ?thesis
      by (simp add: algebra_simps)
  qed
  have rl: "r < ?T"
    unfolding r_def using T(1) by simp
  have r_eq: "(?F * length (vs @ [v])) mod ?T = r"
    unfolding total using rl by simp
  have kq: "(?F * length (vs @ [v])) div ?T = k + q"
    unfolding total using rl by simp
  have acc_lt: "unat acc < 2 ^ M"
    unfolding a by simp
  have "?F + M < 64"
    unfolding M_def using T F by simp
  from unat_shift_or [OF v acc_lt this]
  have "unat acc' = (unat acc * 2 ^ ?F + unat v) mod 2 ^ M"
    unfolding acc'_def by (simp only: unat_and_mask)
  also have "\<dots> = ?N' mod 2 ^ M"
    unfolding a N' by (metis mod_add_left_eq mod_mult_left_eq)
  finally have a': "unat acc' = ?N' mod 2 ^ M" .
  have window: "r + ?T * q \<le> M"
  proof -
    have "r + ?T * q = unat bits + ?F"
      unfolding q_def r_def by simp
    then show ?thesis
      unfolding M_def using bl by simp
  qed
  have "(unat acc' div 2 ^ r) mod (2 ^ ?T) ^ q = (?N' div 2 ^ r) mod (2 ^ ?T) ^ q"
    unfolding a' using mod_div_mod_window [OF window, of ?N']
    by (simp add: power_mult)
  then have new: "digits (2 ^ ?T) q (unat acc' div 2 ^ r) = digits (2 ^ ?T) q (?N' div 2 ^ r)"
    by (rule digits_cong_mod)
  have "?N' div 2 ^ r div (2 ^ ?T) ^ q = ?N' div 2 ^ (unat bits + ?F)"
  proof -
    have "unat bits + ?F = r + ?T * q"
      unfolding q_def r_def by simp
    then show ?thesis
      by (simp add: power_add power_mult div_mult2_eq)
  qed
  also have "\<dots> = ?N' div 2 ^ ?F div 2 ^ unat bits"
    by (simp only: add.commute [of "unat bits"] power_add div_mult2_eq)
  also have "\<dots> = ?N div 2 ^ unat bits"
    unfolding N' using v by simp
  finally have old: "?N' div 2 ^ r div (2 ^ ?T) ^ q = ?N div 2 ^ ((?F * length vs) mod ?T)"
    unfolding b .
  have "map unat ret' = digits (2 ^ ?T) k (?N' div 2 ^ r div (2 ^ ?T) ^ q)
      @ digits (2 ^ ?T) q (?N' div 2 ^ r)"
  proof -
    have "map unat ret' = map unat ret @ digits (2 ^ ?T) q (unat acc' div 2 ^ r)"
      using d' by (simp only: q_def r_def)
    moreover have "map unat ret = digits (2 ^ ?T) k (?N' div 2 ^ r div (2 ^ ?T) ^ q)"
      using d by (simp only: old k_def)
    ultimately show ?thesis
      by (simp only: new)
  qed
  then have "map unat ret' = digits (2 ^ ?T) (k + q) (?N' div 2 ^ r)"
    by (simp only: digits_append)
  with l s b' a' show ?case
    unfolding r_eq kq by (simp add: convertBits_loop_append r_def)
qed

lemma convertBits_loop_bytes:
  fixes f t :: uint and data :: "byte list"
  assumes T: "0 < unat t" "unat t \<le> 8" and F: "0 < unat f" "unat f \<le> 8"
    and vals: "\<forall>b\<in>set data. unat b < 2 ^ unat f"
  shows "\<exists>acc bits ret.
           convertBits_loop f t (mask (unat t)) (mask (unat f + unat t - 1)) (map ucast data) 0 0 []
             = Some (acc, bits, ret) \<and>
           unat bits = (unat f * length data) mod unat t \<and>
           unat acc = number (unat f) (map unat data) mod 2 ^ (unat f + unat t - 1) \<and>
           map unat ret = digits (2 ^ unat t) ((unat f * length data) div unat t)
              (number (unat f) (map unat data) div 2 ^ ((unat f * length data) mod unat t))"
proof -
  have m: "map unat (map ucast data :: uint list) = map unat data"
    by (simp add: unat_ucast_byte)
  have "\<forall>v\<in>set (map ucast data :: uint list). unat v < 2 ^ unat f"
    using vals by (simp add: unat_ucast_byte)
  from convertBits_loop_digits [OF T F this] show ?thesis
    by (simp only: m length_map)
qed

lemma convertBits_unfold:
  fixes fromBits tobits :: uint
  assumes "1 \<le> fromBits" "fromBits \<le> 8" "1 \<le> tobits" "tobits \<le> 8"
  shows "convertBits data fromBits tobits pad =
     (case convertBits_loop fromBits tobits (mask (unat tobits))
             (mask (unat fromBits + unat tobits - 1)) (map ucast data) 0 0 [] of
        None \<Rightarrow> None
      | Some (acc, bits, ret) \<Rightarrow>
          if pad then
            Some (Inr (map ucast
              (if bits > 0 then ret @ [push_bit (unat (tobits - bits)) acc AND mask (unat tobits)]
               else ret)))
          else if bits \<ge> fromBits \<or> push_bit (unat (tobits - bits)) acc AND mask (unat tobits) \<noteq> 0
            then Some (Inl (ErrorsNew ''encoding padding error''))
          else Some (Inr (map ucast ret)))"
proof -
  have F: "1 \<le> unat fromBits" "unat fromBits \<le> 8" and T: "1 \<le> unat tobits" "unat tobits \<le> 8"
    using assms by (simp_all add: word_le_nat_alt)
  then have "unat fromBits + unat tobits < 2 ^ LENGTH(64)"
    by simp
  then have "unat (fromBits + tobits) = unat fromBits + unat tobits"
    by (simp only: unat_add_lem)
  moreover have "1 \<le> fromBits + tobits"
    using F T \<open>unat (fromBits + tobits) = unat fromBits + unat tobits\<close>
    by (simp add: word_le_nat_alt)
  ultimately have "unat (fromBits + tobits - 1) = unat fromBits + unat tobits - 1"
    by (simp add: unat_sub)
  then show ?thesis
    by (simp only: convertBits_def Let_def push_bit_1_minus_1)
qed

text \<open>
  C4. For widths between 1 and 8 and every input, \<^verbatim>\<open>convertBits\<close> without padding returns
  the encoding-padding error exactly when the leftover bit count is at least \<^verbatim>\<open>fromBits\<close>
  or the leftover bits, shifted left to the width \<^verbatim>\<open>tobits\<close>, are not zero; in every other
  case it returns a result.
\<close>

theorem convertBits_nopad_error_iff:
  fixes fromBits tobits :: uint
  assumes "1 \<le> fromBits" "fromBits \<le> 8" "1 \<le> tobits" "tobits \<le> 8"
  shows "(convertBits data fromBits tobits False = Some (Inl (ErrorsNew ''encoding padding error''))
            \<longleftrightarrow> unat fromBits \<le> leftover_count data fromBits tobits
                  \<or> leftover_shifted data fromBits tobits \<noteq> 0)
       \<and> ((\<exists>out. convertBits data fromBits tobits False = Some (Inr out))
            \<longleftrightarrow> \<not> (unat fromBits \<le> leftover_count data fromBits tobits
                  \<or> leftover_shifted data fromBits tobits \<noteq> 0))"
proof -
  have F: "unat fromBits \<le> 8" and T: "0 < unat tobits" "unat tobits \<le> 8"
    using assms by (simp_all add: word_le_nat_alt)
  from convertBits_loop_bits [OF T F, of "mask (unat fromBits + unat tobits - 1)" "map ucast data"]
  obtain bits ret where
    l: "convertBits_loop fromBits tobits (mask (unat tobits)) (mask (unat fromBits + unat tobits - 1))
          (map ucast data) 0 0 []
        = Some (accumulate fromBits (mask (unat fromBits + unat tobits - 1)) (map ucast data), bits, ret)"
    and b: "unat bits = (unat fromBits * length data) mod unat tobits"
    by auto
  have "unat bits < unat tobits"
    using T(1) by (simp add: b)
  then have "bits \<le> tobits"
    by (simp add: word_le_nat_alt)
  then have sub: "unat (tobits - bits) = unat tobits - leftover_count data fromBits tobits"
    by (simp add: unat_sub b leftover_count_def)
  have ge: "fromBits \<le> bits \<longleftrightarrow> unat fromBits \<le> leftover_count data fromBits tobits"
    by (simp add: word_le_nat_alt b leftover_count_def)
  show ?thesis
    unfolding convertBits_unfold [OF assms] l
    by (auto simp add: sub ge leftover_shifted_def)
qed

theorem convertBits_nopad_error_iff_witness:
  "convertBits [31, 28, 0, 24, 1] 5 8 False = Some (Inl (ErrorsNew ''encoding padding error''))"
  using convertBits_nopad_error_iff [of 5 8 "[31, 28, 0, 24, 1]"]
  by (simp add: leftover_count_def leftover_shifted_def accumulate_def word_le_nat_alt
      mask_eq_exp_minus_1)

subsection \<open>Encoding to 5-bit groups and back\<close>

lemma digits_32_small: "\<forall>d\<in>set (digits (2 ^ 5) k x). d < 256"
proof
  fix d
  assume "d \<in> set (digits (2 ^ 5) k x)"
  then have "d < 2 ^ 5"
    using digits_less [of "2 ^ 5" k x] by simp
  then show "d < 256"
    by simp
qed

text \<open>Encoding: 8 to 5 bits with padding.\<close>

lemma convertBits_8_5_pad:
  fixes data :: "byte list"
  defines "N \<equiv> number 8 (map unat data)"
  defines "m \<equiv> (8 * length data + 4) div 5"
  shows "\<exists>mid. convertBits data 8 5 True = Some (Inr mid) \<and>
           map unat mid = digits (2 ^ 5) m (N * 2 ^ (5 * m - 8 * length data))"
proof -
  have vals: "\<forall>b\<in>set data. unat b < 2 ^ unat (8 :: uint)"
    using unat_byte_less by simp
  from convertBits_loop_bytes [of 5 8 data, OF _ _ _ _ vals]
  obtain acc bits ret where
    l: "convertBits_loop 8 5 (mask 5) (mask 12) (map ucast data) 0 0 [] = Some (acc, bits, ret)"
    and b: "unat bits = (8 * length data) mod 5"
    and a: "unat acc = N mod 2 ^ 12"
    and d: "map unat ret = digits (2 ^ 5) ((8 * length data) div 5) (N div 2 ^ ((8 * length data) mod 5))"
    unfolding N_def by auto
  define k where "k = (8 * length data) div 5"
  define r where "r = (8 * length data) mod 5"
  have total: "8 * length data = 5 * k + r" and rl: "r < 5"
    unfolding k_def r_def by simp_all
  have u: "convertBits data 8 5 True =
      Some (Inr (map ucast
        (if bits > 0 then ret @ [push_bit (unat (5 - bits)) acc AND mask 5] else ret)))"
    using convertBits_unfold [of 8 5 data True] l by (simp add: word_le_nat_alt)
  show ?thesis
  proof (cases "r = 0")
    case True
    then have z: "bits = 0"
      using b by (simp add: r_def unat_eq_0)
    have mk: "m = k" and p: "5 * m - 8 * length data = 0"
      unfolding m_def total using True by simp_all
    have "\<forall>d\<in>set (map unat ret). d < 256"
      unfolding d by (rule digits_32_small)
    then have "map unat (map ucast ret :: byte list) = map unat ret"
      by (rule map_ucast_small)
    also have "\<dots> = digits (2 ^ 5) m (N * 2 ^ (5 * m - 8 * length data))"
      unfolding d mk p using True by (simp add: k_def r_def)
    finally have "map unat (map ucast ret :: byte list)
        = digits (2 ^ 5) m (N * 2 ^ (5 * m - 8 * length data))" .
    moreover have "convertBits data 8 5 True = Some (Inr (map ucast ret))"
      using u z by simp
    ultimately show ?thesis
      by blast
  next
    case False
    then have pos: "bits > 0"
      using b by (simp add: r_def word_less_nat_alt)
    have mk: "m = Suc k"
      unfolding m_def total using False rl by presburger
    have p: "5 * m - 8 * length data = 5 - r"
      unfolding mk total by simp
    have "bits \<le> 5"
      using rl b by (simp add: word_le_nat_alt r_def)
    then have sub: "unat (5 - bits) = 5 - r"
      by (simp add: unat_sub b r_def)
    define pad where "pad = push_bit (5 - r) acc AND mask 5"
    have "unat pad = (N mod 2 ^ 12 * 2 ^ (5 - r)) mod 2 ^ 5"
      unfolding pad_def by (simp add: unat_push_and_mask a)
    also have "\<dots> = (N * 2 ^ (5 - r)) mod 2 ^ 5"
    proof -
      have "(N mod 2 ^ 12 * 2 ^ (5 - r)) mod 2 ^ 12 mod 2 ^ 5 = (N * 2 ^ (5 - r)) mod 2 ^ 12 mod 2 ^ 5"
        by (simp only: mod_mult_left_eq)
      moreover have "x mod 2 ^ 12 mod 2 ^ 5 = x mod 2 ^ 5" for x :: nat
        by (intro mod_mod_cancel le_imp_power_dvd) simp
      ultimately show ?thesis
        by simp
    qed
    finally have up: "unat pad = (N * 2 ^ (5 - r)) mod 2 ^ 5" .
    have shift: "N * 2 ^ (5 - r) div 2 ^ 5 = N div 2 ^ r"
    proof -
      have "(2::nat) ^ 5 = 2 ^ (5 - r) * 2 ^ r"
        using rl by (simp flip: power_add)
      then have "N * 2 ^ (5 - r) div 2 ^ 5 = N * 2 ^ (5 - r) div (2 ^ (5 - r) * 2 ^ r)"
        by (simp only:)
      also have "\<dots> = N div 2 ^ r"
        using div_mult_mult1 [of "2 ^ (5 - r)" N "2 ^ r"] by (simp only: mult.commute [of N]) simp
      finally show ?thesis .
    qed
    have full: "map unat (ret @ [pad]) = digits (2 ^ 5) (Suc k) (N * 2 ^ (5 - r))"
      using d up shift by (simp add: k_def r_def)
    have "\<forall>d\<in>set (map unat (ret @ [pad])). d < 256"
      unfolding full by (rule digits_32_small)
    then have "map unat (map ucast (ret @ [pad]) :: byte list) = map unat (ret @ [pad])"
      by (rule map_ucast_small)
    also have "\<dots> = digits (2 ^ 5) m (N * 2 ^ (5 * m - 8 * length data))"
      unfolding full using p by (simp only: mk)
    finally have "map unat (map ucast (ret @ [pad]) :: byte list)
        = digits (2 ^ 5) m (N * 2 ^ (5 * m - 8 * length data))" .
    moreover have "convertBits data 8 5 True = Some (Inr (map ucast (ret @ [pad])))"
      using u pos by (simp add: sub pad_def)
    ultimately show ?thesis
      by blast
  qed
qed

text \<open>Decoding: 5 to 8 bits without padding, on groups below 32.\<close>

lemma convertBits_5_8_nopad:
  fixes mid :: "byte list"
  assumes vals: "\<forall>d\<in>set (map unat mid). d < 2 ^ 5"
    and len: "5 * length mid = 8 * n + p" and p: "p < 5"
    and num: "number 5 (map unat mid) = N * 2 ^ p"
  shows "\<exists>out. convertBits mid 5 8 False = Some (Inr out) \<and> map unat out = digits (2 ^ 8) n N"
proof -
  have vals': "\<forall>b\<in>set mid. unat b < 2 ^ unat (5 :: uint)"
    using vals by simp
  from convertBits_loop_bytes [of 8 5 mid, OF _ _ _ _ vals']
  obtain acc bits ret where
    l: "convertBits_loop 5 8 (mask 8) (mask 12) (map ucast mid) 0 0 [] = Some (acc, bits, ret)"
    and b: "unat bits = (5 * length mid) mod 8"
    and a: "unat acc = number 5 (map unat mid) mod 2 ^ 12"
    and d: "map unat ret = digits (2 ^ 8) ((5 * length mid) div 8)
              (number 5 (map unat mid) div 2 ^ ((5 * length mid) mod 8))"
    by auto
  have r: "(5 * length mid) mod 8 = p" and k: "(5 * length mid) div 8 = n"
    unfolding len using p by simp_all
  have bp: "unat bits = p"
    using b r by simp
  then have nge: "\<not> 5 \<le> bits"
    using p by (simp add: word_le_nat_alt)
  have "bits \<le> 8"
    using bp p by (simp add: word_le_nat_alt)
  then have sub: "unat (8 - bits) = 8 - p"
    by (simp add: unat_sub bp)
  have "unat (push_bit (8 - p) acc AND mask 8) = (N * 2 ^ p mod 2 ^ 12 * 2 ^ (8 - p)) mod 2 ^ 8"
    by (simp add: unat_push_and_mask a num)
  also have "\<dots> = (N * 2 ^ p * 2 ^ (8 - p)) mod 2 ^ 8"
  proof -
    have "(N * 2 ^ p mod 2 ^ 12 * 2 ^ (8 - p)) mod 2 ^ 12 mod 2 ^ 8
        = (N * 2 ^ p * 2 ^ (8 - p)) mod 2 ^ 12 mod 2 ^ 8"
      by (simp only: mod_mult_left_eq)
    moreover have "x mod 2 ^ 12 mod 2 ^ 8 = x mod 2 ^ 8" for x :: nat
      by (intro mod_mod_cancel le_imp_power_dvd) simp
    ultimately show ?thesis
      by simp
  qed
  also have "N * 2 ^ p * 2 ^ (8 - p) = N * 2 ^ 8"
    using p by (simp add: mult.assoc flip: power_add)
  also have "(N * 2 ^ 8) mod 2 ^ 8 = 0"
    by simp
  finally have zero: "push_bit (8 - p) acc AND mask 8 = 0"
    by (simp add: unat_eq_0)
  have u: "convertBits mid 5 8 False = Some (Inr (map ucast ret))"
    using convertBits_unfold [of 5 8 mid False] l nge zero
    by (simp add: word_le_nat_alt sub)
  have dd: "map unat ret = digits (2 ^ 8) n N"
    unfolding d r k num by simp
  have "\<forall>d\<in>set (map unat ret). d < 256"
    unfolding dd using digits_less [of "2 ^ 8" n N] by simp
  then have "map unat (map ucast ret :: byte list) = map unat ret"
    by (rule map_ucast_small)
  with u dd show ?thesis
    by simp
qed

text \<open>
  C2. For every byte sequence, regrouping from 8 to 5 bits with padding and regrouping the
  result from 5 to 8 bits without padding both succeed, and the second returns the
  original bytes.
\<close>

theorem convertBits_roundtrip:
  "\<exists>mid. convertBits data 8 5 True = Some (Inr mid)
      \<and> convertBits mid 5 8 False = Some (Inr data)"
proof -
  define n where "n = length data"
  define N where "N = number 8 (map unat data)"
  define m where "m = (8 * n + 4) div 5"
  define p where "p = 5 * m - 8 * n"
  from convertBits_8_5_pad [of data]
  obtain mid where e: "convertBits data 8 5 True = Some (Inr mid)"
    and dm: "map unat mid = digits (2 ^ 5) m (N * 2 ^ p)"
    unfolding n_def N_def m_def p_def by blast
  have lm: "length mid = m"
    using arg_cong [OF dm, of length] by (simp add: length_digits)
  have len: "5 * length mid = 8 * n + p" and p: "p < 5"
    unfolding lm p_def m_def by presburger+
  have vals: "\<forall>d\<in>set (map unat mid). d < 2 ^ 5"
    unfolding dm by (rule digits_less) simp
  have bytes: "\<forall>v\<in>set (map unat data). v < 2 ^ 8"
    using unat_byte_less by simp
  have "N < (2 ^ 8) ^ n"
    unfolding N_def n_def using number_less [OF bytes] by simp
  then have "N * 2 ^ p < (2 ^ 8) ^ n * 2 ^ p"
    by simp
  also have "\<dots> = (2 ^ 5) ^ m"
  proof -
    have "(2::nat) ^ (8 * n + p) = 2 ^ (5 * m)"
      using len by (simp add: lm)
    then show ?thesis
      by (simp only: power_mult power_add)
  qed
  finally have "(N * 2 ^ p) mod (2 ^ 5) ^ m = N * 2 ^ p"
    by (rule mod_less)
  then have "number 5 (map unat mid) = N * 2 ^ p"
    unfolding dm by (simp only: number_digits)
  from convertBits_5_8_nopad [OF vals len p this]
  obtain out where o: "convertBits mid 5 8 False = Some (Inr out)"
    and "map unat out = digits (2 ^ 8) n N"
    by blast
  then have "map unat out = map unat data"
    unfolding n_def N_def using digits_number [OF bytes] by simp
  then have "out = data"
    by (rule inj_unat_map)
  with e o show ?thesis
    by blast
qed

section \<open>Properties of the EOS account-name check\<close>

lemma AccountChars_bytes:
  "AccountChars = [0x2E, 0x31, 0x32, 0x33, 0x34, 0x35, 0x61, 0x62, 0x63, 0x64, 0x65, 0x66, 0x67,
     0x68, 0x69, 0x6A, 0x6B, 0x6C, 0x6D, 0x6E, 0x6F, 0x70, 0x71, 0x72, 0x73, 0x74, 0x75, 0x76,
     0x77, 0x78, 0x79, 0x7A]"
  by (simp add: AccountChars_def go_string_def)

lemma AccountChars_ascii: "\<forall>b\<in>set AccountChars. b < 0x80"
  by (simp add: AccountChars_bytes word_less_nat_alt)

lemma runes_ascii: "\<forall>b\<in>set bs. b < 0x80 \<Longrightarrow> runes bs = map ucast bs"
  by (induction bs) simp_all

lemma decoderune_large: "0x7F < fst (decoderune s)"
  by (simp add: decoderune_def runeError_def Let_def word_less_nat_alt)

lemma inj_ucast_byte_rune: "inj (ucast :: byte \<Rightarrow> rune)"
  by (rule down_ucast_inj) (simp add: is_down)

lemma unat_ucast_byte_rune: "unat (ucast (b :: byte) :: rune) = unat b"
proof -
  have "unat b < 2 ^ 32"
    using unat_byte_less [of b] by simp
  then show ?thesis
    by (simp add: unsigned_ucast_eq take_bit_nat_eq_self)
qed

lemma ContainsRune_AccountChars_ascii:
  "ContainsRune AccountChars (ucast (c :: byte)) \<longleftrightarrow> c \<in> set AccountChars"
  using AccountChars_ascii
  by (simp add: ContainsRune_def runes_ascii inj_image_mem_iff [OF inj_ucast_byte_rune])

lemma ContainsRune_AccountChars_large:
  assumes "0x7F < r"
  shows "\<not> ContainsRune AccountChars r"
proof
  assume "ContainsRune AccountChars r"
  then obtain b where "b \<in> set AccountChars" and r: "r = ucast b"
    using AccountChars_ascii by (auto simp add: ContainsRune_def runes_ascii)
  then have "b < 0x80"
    using AccountChars_ascii by blast
  then have "unat r < 128"
    by (simp add: r unat_ucast_byte_rune word_less_nat_alt)
  with assms show False
    by (simp add: word_less_nat_alt)
qed

lemma CheckEOSAccount_runes:
  "list_all (ContainsRune AccountChars) (runes s) \<longleftrightarrow> list_all (\<lambda>b. b \<in> set AccountChars) s"
proof (induction s)
  case Nil
  then show ?case by simp
next
  case (Cons c rest)
  show ?case
  proof (cases "c < 0x80")
    case True
    then show ?thesis
      by (simp add: Cons ContainsRune_AccountChars_ascii)
  next
    case False
    obtain r n where d: "decoderune (c # rest) = (r, n)"
      by (cases "decoderune (c # rest)")
    then have "0x7F < r"
      using decoderune_large [of "c # rest"] by simp
    then have "\<not> ContainsRune AccountChars r"
      by (rule ContainsRune_AccountChars_large)
    moreover have "c \<notin> set AccountChars"
      using False AccountChars_ascii by blast
    ultimately show ?thesis
      using False d by simp
  qed
qed

text \<open>
  C9. The account-name check accepts a string exactly when it has at most 12 bytes and
  each of them is one of \<^verbatim>\<open>.12345abcdefghijklmnopqrstuvwxyz\<close>.
\<close>

theorem CheckEOSAccount_iff:
  "CheckEOSAccount s \<longleftrightarrow> length s \<le> 12 \<and> list_all (\<lambda>b. b \<in> set AccountChars) s"
  by (simp add: CheckEOSAccount_def CheckEOSAccount_runes [unfolded ContainsRune_def]
      ContainsRune_def not_less)

theorem CheckEOSAccount_iff_witness:
  "CheckEOSAccount (go_string ''eosio.token'') \<and> \<not> CheckEOSAccount (go_string ''Eosio'')
     \<and> \<not> CheckEOSAccount (go_string ''abcdefghijklm'')"
  using CheckEOSAccount_iff [of "go_string ''eosio.token''"]
    CheckEOSAccount_iff [of "go_string ''Eosio''"]
    CheckEOSAccount_iff [of "go_string ''abcdefghijklm''"]
  by (simp add: AccountChars_bytes go_string_def)


section \<open>The entry points and the constructors\<close>

text \<open>
  C10. For a chain identifier outside the supported set, \<^verbatim>\<open>CheckAddress\<close> returns true for
  every address string and either value of the main-net flag.
\<close>

theorem CheckAddress_unknown_chain:
  "chain \<notin> set supported_chains \<Longrightarrow> CheckAddress ext address chain main = Some True"
  by (simp add: CheckAddress_def supported_chains_def)

theorem CheckAddress_unknown_chain_witness:
  "\<forall>ext address main. CheckAddress ext address (go_string ''DOGE'') main = Some True"
  by (intro allI CheckAddress_unknown_chain) (simp add: supported_chains_def go_string_def)

text \<open>
  The constructors of BTC (and OMNI), of BCH and of VDS check the key format: each fails
  with the public-key-format error on every key that is not 65 bytes long with the tag
  0x04, and those of BTC and BCH construct an address on every other key.
\<close>

lemma validating_constructors:
  "(NewBTCAddress pubKey main = Inl ErrPublicKeyFormat \<longleftrightarrow> \<not> uncompressed_key pubKey)
   \<and> ((\<exists>a. NewBTCAddress pubKey main = Inr a) \<longleftrightarrow> uncompressed_key pubKey)
   \<and> (NewBCHAddress pubKey main = Inl ErrPublicKeyFormat \<longleftrightarrow> \<not> uncompressed_key pubKey)
   \<and> ((\<exists>a. NewBCHAddress pubKey main = Inr a) \<longleftrightarrow> uncompressed_key pubKey)
   \<and> (\<not> uncompressed_key pubKey \<longrightarrow> NewVDSAddress ext pubKey = Inl ErrPublicKeyFormat)"
  by (auto simp add: uncompressed_key_def NewBTCAddress_def NewBCHAddress_def NewVDSAddress_def)

text \<open>
  C7. Every constructor is to fail with the public-key-format error on a key that is not
  65 bytes long with the tag 0x04. The constructors of ETH (and ETC) and of LTC miss the
  check that their siblings make: on the empty key, where \<^verbatim>\<open>NewBTCAddress\<close>, \<^verbatim>\<open>NewBCHAddress\<close>
  and \<^verbatim>\<open>NewVDSAddress\<close> return the error, \<^verbatim>\<open>NewETHAddress\<close> and \<^verbatim>\<open>NewLTCAddress\<close> return an
  address object, also through \<^verbatim>\<open>NewAddress\<close>; so they do on a key of one byte. The
  constructor of TRON checks the length and not the tag: it returns an address object for
  a key of 65 bytes with the tag 0x02, which \<^verbatim>\<open>NewBTCAddress\<close> refuses.
\<close>

theorem constructors_malformed_key:
  "NewETHAddress [] = Inr \<lparr>eth_addr = [], eth_pubKey = []\<rparr>
   \<and> NewAddress ext (go_string ''ETH'') [] main = Inr (ETH \<lparr>eth_addr = [], eth_pubKey = []\<rparr>)
   \<and> NewAddress ext (go_string ''ETC'') [] main = Inr (ETH \<lparr>eth_addr = [], eth_pubKey = []\<rparr>)
   \<and> NewLTCAddress [] True = Inr \<lparr>ltc_net = 0x30, ltc_addr = [], ltc_pubKey = []\<rparr>
   \<and> NewAddress ext (go_string ''LTC'') [] True
         = Inr (LTC \<lparr>ltc_net = 0x30, ltc_addr = [], ltc_pubKey = []\<rparr>)
   \<and> NewETHAddress [0x02] = Inr \<lparr>eth_addr = [], eth_pubKey = [0x02]\<rparr>
   \<and> NewLTCAddress [0x02] True = Inr \<lparr>ltc_net = 0x30, ltc_addr = [], ltc_pubKey = [0x02]\<rparr>
   \<and> NewTRONAddress ext (0x02 # replicate 64 0)
         = Inr \<lparr>tron_addr = tronAddrFromPub ext (0x02 # replicate 64 0),
                tron_pubKey = replicate 64 0\<rparr>
   \<and> NewBTCAddress [] True = Inl ErrPublicKeyFormat
   \<and> NewAddress ext (go_string ''BTC'') [] True = Inl ErrPublicKeyFormat
   \<and> NewBCHAddress [] True = Inl ErrPublicKeyFormat
   \<and> NewVDSAddress ext [] = Inl ErrPublicKeyFormat
   \<and> NewBTCAddress [0x02] True = Inl ErrPublicKeyFormat
   \<and> NewBTCAddress (0x02 # replicate 64 0) True = Inl ErrPublicKeyFormat"
  by (simp add: NewETHAddress_def NewLTCAddress_def LTC_MAIN_NET_def NewTRONAddress_def
      NewBTCAddress_def NewBCHAddress_def NewVDSAddress_def NewAddress_def go_string_def)

theorem constructors_malformed_key_witness:
  "NewAddress legacy_accepting (go_string ''ETH'') [] True
     = Inr (ETH \<lparr>eth_addr = [], eth_pubKey = []\<rparr>)
   \<and> NewVDSAddress legacy_accepting [] = Inl ErrPublicKeyFormat"
  using constructors_malformed_key [where ext = legacy_accepting and main = True]
  by blast

section \<open>The textual form of a BCH address\<close>

lemma length_b58_alphabet: "length b58_alphabet = 58"
  by (simp add: b58_alphabet_def go_string_def)

lemma colon_not_b58: "0x3A \<notin> set b58_alphabet"
  by (simp add: b58_alphabet_def go_string_def)

lemma b58_digits_alphabet: "set (b58_digits n) \<subseteq> set b58_alphabet"
proof (induction n rule: b58_digits.induct)
  case (1 n)
  show ?case
  proof (cases "n = 0")
    case True
    then show ?thesis by simp
  next
    case False
    have "n mod 58 < length b58_alphabet"
      by (simp add: length_b58_alphabet)
    then have "b58_alphabet ! (n mod 58) \<in> set b58_alphabet"
      by (rule nth_mem)
    with False 1 show ?thesis
      by (subst b58_digits.simps) simp
  qed
qed

lemma base58_Encode_alphabet: "set (base58_Encode bs) \<subseteq> set b58_alphabet"
proof -
  have "b58_alphabet ! 0 \<in> set b58_alphabet"
    by (rule nth_mem) (simp add: length_b58_alphabet)
  then show ?thesis
    using b58_digits_alphabet by (auto simp add: base58_Encode_def)
qed

lemma BCHAddress_String_new:
  assumes "NewBCHAddress pubKey main = Inr a"
  shows "fst (BCHAddress_String ext a) =
           base58_CheckEncode ext
             (digest_bytes (ripemd160_Sum ext (digest_bytes (sha256_Sum256 ext pubKey))))
             (if main then 0x00 else 0x6f)"
  using assms
  by (auto simp add: NewBCHAddress_def BCHAddress_String_def BTCAddress_String_def Let_def
      BCH_MAIN_NET_def BCH_TEST_NET_def split: if_splits)

text \<open>
  C6 does not hold of the code. For the first key of \<^verbatim>\<open>TestBCHAddress\<close> and the main net,
  \<^verbatim>\<open>BCHAddress.String\<close> returns the Base58Check encoding, with version byte 0, of the
  RIPEMD-160 digest of the SHA-256 digest of the key, whatever the hash functions are. A
  Base58 string has no colon, so it is not the address that the test expects.
\<close>

theorem BCHAddress_String_TestBCHAddress:
  "\<exists>a. NewBCHAddress TestBCHAddress_key True = Inr a
      \<and> fst (BCHAddress_String ext a) =
            base58_CheckEncode ext
              (digest_bytes (ripemd160_Sum ext (digest_bytes (sha256_Sum256 ext TestBCHAddress_key))))
              0x00
      \<and> fst (BCHAddress_String ext a) \<noteq> TestBCHAddress_addr"
proof -
  obtain a where a: "NewBCHAddress TestBCHAddress_key True = Inr a"
    by (simp add: NewBCHAddress_def TestBCHAddress_key_def)
  have s: "fst (BCHAddress_String ext a) =
      base58_CheckEncode ext
        (digest_bytes (ripemd160_Sum ext (digest_bytes (sha256_Sum256 ext TestBCHAddress_key)))) 0x00"
    using BCHAddress_String_new [OF a, of ext] by simp
  have "0x3A \<notin> set (fst (BCHAddress_String ext a))"
    unfolding s base58_CheckEncode_def using base58_Encode_alphabet colon_not_b58 by blast
  moreover have "0x3A \<in> set TestBCHAddress_addr"
    by (simp add: TestBCHAddress_addr_def go_string_def)
  ultimately have "fst (BCHAddress_String ext a) \<noteq> TestBCHAddress_addr"
    by metis
  with a s show ?thesis
    by blast
qed

theorem BCHAddress_String_TestBCHAddress_witness:
  "\<forall>ext. \<exists>a. NewBCHAddress TestBCHAddress_key True = Inr a
      \<and> fst (BCHAddress_String ext a) \<noteq> TestBCHAddress_addr"
  using BCHAddress_String_TestBCHAddress by blast

section \<open>The case-checksummed hexadecimal form\<close>

lemma ETHAddress_String_loop_result:
  "length addrBytes \<le> length check \<Longrightarrow> i \<le> length addrBytes \<Longrightarrow>
     ETHAddress_String_loop check addrBytes i =
       Some (take i addrBytes
         @ map (\<lambda>j. if check ! j \<ge> 0x38 \<and> addrBytes ! j \<ge> 0x61
                      then addrBytes ! j - 0x20 else addrBytes ! j)
             [i..<length addrBytes])"
proof (induction check addrBytes i rule: ETHAddress_String_loop.induct)
  case (1 check addrBytes i)
  show ?case
  proof (cases "i < length addrBytes")
    case False
    with "1.prems" show ?thesis
      by (subst ETHAddress_String_loop.simps) simp
  next
    case True
    define g :: "byte \<Rightarrow> byte \<Rightarrow> byte"
      where "g = (\<lambda>c b. if c \<ge> 0x38 \<and> b \<ge> 0x61 then b - 0x20 else b)"
    define bs' where "bs' = (if check ! i \<ge> 0x38 \<and> addrBytes ! i \<ge> 0x61
        then addrBytes[i := addrBytes ! i - 0x20] else addrBytes)"
    have len: "length bs' = length addrBytes"
      by (simp add: bs'_def)
    have ic: "\<not> length check \<le> i"
      using True "1.prems" by simp
    have at: "bs' ! i = g (check ! i) (addrBytes ! i)"
      using True by (simp add: bs'_def g_def)
    have later: "bs' ! j = addrBytes ! j" if "i < j" for j
      using that by (simp add: bs'_def)
    have before: "take i bs' = take i addrBytes"
      by (simp add: bs'_def)
    from "1.IH" [OF True ic] "1.prems" True
    have "ETHAddress_String_loop check bs' (Suc i) =
        Some (take (Suc i) bs' @ map (\<lambda>j. g (check ! j) (bs' ! j)) [Suc i..<length bs'])"
      unfolding bs'_def [symmetric] g_def by (simp add: len)
    also have "take (Suc i) bs' = take i addrBytes @ [g (check ! i) (addrBytes ! i)]"
      using True by (simp add: take_Suc_conv_app_nth len before at)
    also have "map (\<lambda>j. g (check ! j) (bs' ! j)) [Suc i..<length bs']
        = map (\<lambda>j. g (check ! j) (addrBytes ! j)) [Suc i..<length addrBytes]"
      by (simp add: len later)
    finally have "ETHAddress_String_loop check bs' (Suc i) =
        Some (take i addrBytes @ map (\<lambda>j. g (check ! j) (addrBytes ! j)) [i..<length addrBytes])"
      using True by (simp add: upt_conv_Cons)
    then show ?thesis
      using True ic by (subst ETHAddress_String_loop.simps) (simp add: bs'_def g_def)
  qed
qed

lemma length_digest_bytes_256: "length (digest_bytes (w :: 256 word)) = 32"
  by (simp add: digest_bytes_def)

lemma length_hex_EncodeToString: "length (hex_EncodeToString src) = 2 * length src"
  by (induction src) (simp_all add: hex_EncodeToString_def)

lemma hex_EncodeToString_nth:
  "i < 2 * length src \<Longrightarrow> hex_EncodeToString src ! i = hextable ! unat (nibble src i)"
proof (induction src arbitrary: i)
  case Nil
  then show ?case by simp
next
  case (Cons v src)
  have unf: "hex_EncodeToString (v # src)
      = hextable ! unat (drop_bit 4 v) # hextable ! unat (v AND 0x0f) # hex_EncodeToString src"
    by (simp add: hex_EncodeToString_def)
  consider "i = 0" | "i = 1" | j where "i = Suc (Suc j)"
    by (metis One_nat_def not0_implies_Suc)
  then show ?case
  proof cases
    case 1
    then show ?thesis by (simp add: unf nibble_def)
  next
    case 2
    then show ?thesis by (simp add: unf nibble_def)
  next
    case 3
    then have "j < 2 * length src"
      using Cons.prems by simp
    then have "hex_EncodeToString src ! j = hextable ! unat (nibble src j)"
      by (rule Cons.IH)
    then show ?thesis
      by (simp add: unf 3 nibble_def)
  qed
qed

lemma hextable_bytes:
  "hextable = [0x30, 0x31, 0x32, 0x33, 0x34, 0x35, 0x36, 0x37, 0x38, 0x39,
               0x61, 0x62, 0x63, 0x64, 0x65, 0x66]"
  by (simp add: hextable_def go_string_def)

lemma upt_16: "[0..<16] = [0, 1, 2, 3, 4, 5, 6, 7, 8, 9, 10, 11, 12, 13, 14, 15 :: nat]"
  by (simp add: upt_rec)

lemma hextable_cases:
  "list_all (\<lambda>k. (hextable ! k \<ge> 0x38) = (8 \<le> k)
                 \<and> (hextable ! k \<ge> 0x61) = is_alpha (hextable ! k)
                 \<and> (hextable ! k \<ge> 0x61 \<longrightarrow> to_upper (hextable ! k) = hextable ! k - 0x20))
     [0..<16]"
  unfolding upt_16 hextable_bytes
  by (simp add: is_alpha_def to_upper_def word_le_nat_alt)

lemma hextable_digit:
  assumes "k < 16"
  shows "(hextable ! k \<ge> 0x38) = (8 \<le> k)"
    and "(hextable ! k \<ge> 0x61) = is_alpha (hextable ! k)"
    and "hextable ! k \<ge> 0x61 \<Longrightarrow> to_upper (hextable ! k) = hextable ! k - 0x20"
proof -
  have "k \<in> set [0..<16]"
    using assms by simp
  with hextable_cases have "(hextable ! k \<ge> 0x38) = (8 \<le> k)
      \<and> (hextable ! k \<ge> 0x61) = is_alpha (hextable ! k)
      \<and> (hextable ! k \<ge> 0x61 \<longrightarrow> to_upper (hextable ! k) = hextable ! k - 0x20)"
    unfolding list_all_iff by blast
  then show "(hextable ! k \<ge> 0x38) = (8 \<le> k)"
    and "(hextable ! k \<ge> 0x61) = is_alpha (hextable ! k)"
    and "hextable ! k \<ge> 0x61 \<Longrightarrow> to_upper (hextable ! k) = hextable ! k - 0x20"
    by simp_all
qed

lemma unat_nibble_less: "unat (nibble h i) < 16"
proof -
  have "unat (drop_bit 4 b) < 16" for b :: byte
  proof -
    have "unat (drop_bit 4 b) = drop_bit 4 (unat b)"
      by (rule unat_drop_bit_eq)
    also have "\<dots> = unat b div 2 ^ 4"
      by (rule drop_bit_eq_div)
    also have "\<dots> < 16"
      using unat_byte_less [of b] by simp
    finally show ?thesis .
  qed
  moreover have "unat (b AND 0x0f) < 16" for b :: byte
  proof -
    have "b AND 0x0f = b AND mask 4"
      by (simp add: mask_eq_exp_minus_1)
    then have "unat (b AND 0x0f) = unat b mod 2 ^ 4"
      by (simp only: unat_and_mask)
    then show ?thesis
      by simp
  qed
  ultimately show ?thesis
    by (simp add: nibble_def)
qed

text \<open>
  For every key that is not empty, \<^verbatim>\<open>String\<close> on the object that \<^verbatim>\<open>NewETHAddress\<close> makes returns
  \<^verbatim>\<open>0x\<close> followed by the 40 hexadecimal digits of the 20-byte payload, each in upper case
  if and only if it is a letter and the nibble of the Keccak digest of the lower-case string
  at its position is 8 or more; nothing is appended to the 40 digits.
\<close>

lemma ETHAddress_String_nonempty:
  assumes "NewETHAddress pubKey = Inr a" and "pubKey \<noteq> []"
  shows "ETHAddress_String ext a
           = Some (go_string ''0x'' @ case_checksummed ext (ETH_payload ext pubKey))
       \<and> length (ETH_payload ext pubKey) = 20
       \<and> length (case_checksummed ext (ETH_payload ext pubKey)) = 40"
proof (intro conjI)
  define payload where "payload = ETH_payload ext pubKey"
  define lowerhex where "lowerhex = hex_EncodeToString payload"
  define h where "h = digest_bytes (keccak256_Sum ext lowerhex)"
  define check where "check = hex_EncodeToString h"
  have a: "a = \<lparr>eth_addr = [], eth_pubKey = pubKey\<rparr>"
    using assms(1) by (simp add: NewETHAddress_def)
  show lp: "length (ETH_payload ext pubKey) = 20"
    by (simp add: ETH_payload_def length_digest_bytes_256)
  then have ll: "length lowerhex = 40"
    by (simp add: lowerhex_def payload_def length_hex_EncodeToString)
  then show "length (case_checksummed ext (ETH_payload ext pubKey)) = 40"
    by (simp add: case_checksummed_def Let_def lowerhex_def payload_def)
  have lc: "length check = 64"
    by (simp add: check_def h_def length_hex_EncodeToString length_digest_bytes_256)
  have loop: "ETHAddress_String_loop check lowerhex 0 =
      Some (map (\<lambda>j. if check ! j \<ge> 0x38 \<and> lowerhex ! j \<ge> 0x61
                        then lowerhex ! j - 0x20 else lowerhex ! j) [0..<length lowerhex])"
    using ETHAddress_String_loop_result [of lowerhex check 0] by (simp add: ll lc)
  have "(if check ! j \<ge> 0x38 \<and> lowerhex ! j \<ge> 0x61 then lowerhex ! j - 0x20 else lowerhex ! j)
      = (if is_alpha (lowerhex ! j) \<and> nibble h j \<ge> 8 then to_upper (lowerhex ! j) else lowerhex ! j)"
    if "j < 40" for j
  proof -
    have c: "check ! j = hextable ! unat (nibble h j)"
      unfolding check_def using that
      by (intro hex_EncodeToString_nth) (simp add: h_def length_digest_bytes_256)
    have l: "lowerhex ! j = hextable ! unat (nibble payload j)"
      unfolding lowerhex_def using that lp
      by (intro hex_EncodeToString_nth) (simp add: payload_def)
    have "(nibble h j \<ge> 8) = (8 \<le> unat (nibble h j))"
      by (simp add: word_le_nat_alt)
    then have "(check ! j \<ge> 0x38) = (nibble h j \<ge> 8)"
      unfolding c by (simp only: hextable_digit(1) [OF unat_nibble_less])
    moreover have "(lowerhex ! j \<ge> 0x61) = is_alpha (lowerhex ! j)"
      unfolding l by (rule hextable_digit(2) [OF unat_nibble_less])
    moreover have "lowerhex ! j \<ge> 0x61 \<Longrightarrow> to_upper (lowerhex ! j) = lowerhex ! j - 0x20"
      unfolding l by (rule hextable_digit(3) [OF unat_nibble_less])
    ultimately show ?thesis
      by auto
  qed
  then have "map (\<lambda>j. if check ! j \<ge> 0x38 \<and> lowerhex ! j \<ge> 0x61
                        then lowerhex ! j - 0x20 else lowerhex ! j) [0..<length lowerhex]
      = case_checksummed ext payload"
    by (simp add: case_checksummed_def Let_def lowerhex_def [symmetric] h_def [symmetric] ll)
  with loop have "ETHAddress_String_loop check lowerhex 0 = Some (case_checksummed ext payload)"
    by simp
  then show "ETHAddress_String ext a
      = Some (go_string ''0x'' @ case_checksummed ext (ETH_payload ext pubKey))"
    using assms(2)
    by (simp add: ETHAddress_String_def a Let_def payload_def lowerhex_def h_def check_def
        ETH_payload_def)
qed

text \<open>
  C8. For every key the ETH constructor accepts, the derived address is to be \<^verbatim>\<open>0x\<close>
  followed by the 40 case-checksummed hexadecimal digits of the payload. The constructor
  accepts the empty key, for it checks nothing, and on that key \<^verbatim>\<open>String\<close> does not return:
  the slice \<^verbatim>\<open>a.pubKey[1:]\<close> panics, and no address is derived. On every other key the
  address has the form described (\<open>ETHAddress_String_nonempty\<close>).
\<close>

theorem ETHAddress_String_empty_key:
  "NewETHAddress [] = Inr \<lparr>eth_addr = [], eth_pubKey = []\<rparr>
   \<and> ETHAddress_String ext \<lparr>eth_addr = [], eth_pubKey = []\<rparr> = None"
  by (simp add: NewETHAddress_def ETHAddress_String_def)

section \<open>The two decoders of a BCH address\<close>

text \<open>
  C5, as amended. When the address is at least two bytes longer than the prefix of the
  network, the validator tries the prefix:base32 decoder first. When that decoder fails
  with a checksum mismatch, \<^verbatim>\<open>DecodeAddress\<close> returns the mismatch at once and the validator
  answers false, without a look at the legacy form. When it fails in any other way,
  the result is that of the rest of \<^verbatim>\<open>DecodeAddress\<close>: the serialized public key in
  hexadecimal for a string of 130 or 66 bytes, the legacy Base58Check decoder otherwise.
\<close>

theorem CheckBCHAddress_cashaddr_failure:
  assumes "Prefixes (if main then MainNetParams else TestNet3Params) = Some pre"
    and "length pre + 2 \<le> length address"
    and "checkDecodeCashAddress (addrWithPrefix pre address) = Some (Inl err)"
  shows "DecodeAddress ext address (if main then MainNetParams else TestNet3Params) =
           (if err = ErrChecksumMismatch then Some (Inl ErrChecksumMismatch)
            else DecodeAddress_legacy ext address (if main then MainNetParams else TestNet3Params))
       \<and> CheckBCHAddress ext address main =
           (if err = ErrChecksumMismatch then Some False
            else case DecodeAddress_legacy ext address (if main then MainNetParams else TestNet3Params) of
                   None \<Rightarrow> None
                 | Some (Inl e) \<Rightarrow> Some False
                 | Some (Inr a) \<Rightarrow> Some (IsForNet a (if main then MainNetParams else TestNet3Params)))"
  using assms by (simp add: CheckBCHAddress_def DecodeAddress_def Let_def)

lemma legacy_accepting_legacy:
  "length addr \<noteq> 130 \<Longrightarrow> length addr \<noteq> 66 \<Longrightarrow>
     DecodeAddress_legacy legacy_accepting addr MainNetParams
       = Some (Inr (LegacyAddressPubKeyHash (replicate 20 0) 0))"
  by (simp add: DecodeAddress_legacy_def legacy_accepting_def IsPubKeyHashAddrID_def
      IsScriptHashAddrID_def registered_def newLegacyAddressPubKeyHash_def Let_def)

lemma cash_mixed_case:
  "checkDecodeCashAddress (addrWithPrefix (go_string ''bitcoincash'')
       (go_string ''1BMfnF2h2absXr4JjNMzFeB1XP97NnNXfs''))
     = Some (Inl (ErrorsNew ''addresses cannot use both upper and lower case characters''))"
  by (simp add: checkDecodeCashAddress_def DecodeCashAddress_def addrWithPrefix_def go_string_def
      word_le_nat_alt word_less_nat_alt)

theorem CheckBCHAddress_cashaddr_failure_witness:
  "CheckBCHAddress legacy_accepting (go_string ''1BMfnF2h2absXr4JjNMzFeB1XP97NnNXfs'') True
     = Some True"
proof -
  have l: "DecodeAddress_legacy legacy_accepting
         (go_string ''1BMfnF2h2absXr4JjNMzFeB1XP97NnNXfs'') MainNetParams
       = Some (Inr (LegacyAddressPubKeyHash (replicate 20 0) 0))"
    by (rule legacy_accepting_legacy) (simp_all add: go_string_def)
  have "length (go_string ''bitcoincash'') + 2
      \<le> length (go_string ''1BMfnF2h2absXr4JjNMzFeB1XP97NnNXfs'')"
    by (simp add: go_string_def)
  from CheckBCHAddress_cashaddr_failure [of True "go_string ''bitcoincash''", OF _ this cash_mixed_case,
      of legacy_accepting]
  show ?thesis
    by (simp add: l)
qed

text \<open>
  C5 as the specification states it fails. The string below fails the prefix:base32
  decoder with a checksum mismatch; the legacy decoder of the stand-in would take it for
  an address of the main net; the validator answers false.
\<close>

lemma cash_mismatch:
  "checkDecodeCashAddress (addrWithPrefix (go_string ''bitcoincash'')
       (go_string ''qpcenuhjnwk0xw4st4x0pyn69vmra29nnvghrpm8jh''))
     = Some (Inl ErrChecksumMismatch)"
  by (simp add: checkDecodeCashAddress_def DecodeCashAddress_def addrWithPrefix_def go_string_def
      CharsetRev_def lowerCase_def verifyChecksum_def cat_def expandPrefix_def polyMod_def
      polyMod_step_def Let_def word_le_nat_alt word_less_nat_alt)

theorem CheckBCHAddress_no_fallthrough_counterexample:
  "checkDecodeCashAddress (addrWithPrefix (go_string ''bitcoincash'')
       (go_string ''qpcenuhjnwk0xw4st4x0pyn69vmra29nnvghrpm8jh''))
     = Some (Inl ErrChecksumMismatch)
   \<and> DecodeAddress_legacy legacy_accepting
         (go_string ''qpcenuhjnwk0xw4st4x0pyn69vmra29nnvghrpm8jh'') MainNetParams
       = Some (Inr (LegacyAddressPubKeyHash (replicate 20 0) 0))
   \<and> IsForNet (LegacyAddressPubKeyHash (replicate 20 0) 0 :: unit bch_Address) MainNetParams
   \<and> DecodeAddress legacy_accepting
         (go_string ''qpcenuhjnwk0xw4st4x0pyn69vmra29nnvghrpm8jh'') MainNetParams
       = Some (Inl ErrChecksumMismatch)
   \<and> CheckBCHAddress legacy_accepting
         (go_string ''qpcenuhjnwk0xw4st4x0pyn69vmra29nnvghrpm8jh'') True = Some False"
proof -
  have l: "DecodeAddress_legacy legacy_accepting
         (go_string ''qpcenuhjnwk0xw4st4x0pyn69vmra29nnvghrpm8jh'') MainNetParams
       = Some (Inr (LegacyAddressPubKeyHash (replicate 20 0) 0))"
    by (rule legacy_accepting_legacy) (simp_all add: go_string_def)
  have d: "DecodeAddress legacy_accepting
         (go_string ''qpcenuhjnwk0xw4st4x0pyn69vmra29nnvghrpm8jh'') MainNetParams
       = Some (Inl ErrChecksumMismatch)"
    using cash_mismatch by (simp add: DecodeAddress_def) (simp add: go_string_def)
  then have "CheckBCHAddress legacy_accepting
         (go_string ''qpcenuhjnwk0xw4st4x0pyn69vmra29nnvghrpm8jh'') True = Some False"
    by (simp add: CheckBCHAddress_def)
  with cash_mismatch l d show ?thesis
    by simp
qed


end
